theory Spec2Isabelle
  imports Main
begin

unbundle bit_operations_syntax

section \<open>Errors\<close>

datatype error =
    NonPrimitive
  | NotPowerOfTwo
  | CodelengthTooLarge
  | MappingIncomplete
  | MappingOutOfRange
  | SpectrumOutOfBounds

section \<open>The field GF(2^m)\<close>

type_synonym gf_elt = nat

record gf_field =
  gf_size :: nat
  gf_size_minus_1 :: nat
  gf_log :: "int list"
  gf_exp :: "gf_elt list"

definition primitives :: "nat list" where
  "primitives = [0x1, 0x3, 0x7, 0xb, 0x13, 0x25, 0x43, 0x89, 0x11d, 0x221, 0x409]"

definition gf_accmul :: "gf_field \<Rightarrow> gf_elt \<Rightarrow> nat \<Rightarrow> gf_elt \<Rightarrow> gf_elt" where
  "gf_accmul F acc hlog x =
     (if x = 0 then acc
      else acc XOR gf_exp F ! (nat (int hlog + gf_log F ! x) mod gf_size_minus_1 F))"

fun gf_size_loop :: "nat \<Rightarrow> nat \<Rightarrow> nat" where
  "gf_size_loop p s = (if p > 0 then gf_size_loop (p div 2) (2 * s) else s)"

declare gf_size_loop.simps [simp del]

definition gf_next :: "nat \<Rightarrow> nat \<Rightarrow> gf_elt \<Rightarrow> gf_elt" where
  "gf_next P sz x =
     (if (2 * x) mod 2 ^ 32 \<ge> sz then ((2 * x) mod 2 ^ 32) XOR P else (2 * x) mod 2 ^ 32)"

function gf_fill ::
  "nat \<Rightarrow> nat \<Rightarrow> nat \<Rightarrow> gf_elt \<Rightarrow> int list \<Rightarrow> gf_elt list \<Rightarrow> gf_elt \<times> int list \<times> gf_elt list" where
  "gf_fill P sz k x lg ex =
     (if k < sz - 1 then gf_fill P sz (k + 1) (gf_next P sz x) (lg[x := int k]) (ex[k := x])
      else (x, lg, ex))"
  by pat_completeness auto
termination
  by (relation "measure (\<lambda>(P, sz, k, x, lg, ex). sz - 1 - k)") auto

declare gf_fill.simps [simp del]

definition gf_init :: "nat \<Rightarrow> error + gf_field" where
  "gf_init P =
     (let sz = gf_size_loop P 1 div 2 in
      case gf_fill P sz 0 1 ((replicate sz 0)[0 := - 1]) (replicate sz 0) of
        (x, lg, ex) \<Rightarrow>
          if x \<noteq> 1 then Inl NonPrimitive
          else Inr \<lparr>gf_size = sz, gf_size_minus_1 = sz - 1, gf_log = lg, gf_exp = ex\<rparr>)"

section \<open>Parity checks\<close>

definition chk_valid :: "gf_field \<Rightarrow> nat \<Rightarrow> nat list \<Rightarrow> gf_elt list \<Rightarrow> bool" where
  "chk_valid F n h x =
     (fold (\<lambda>i acc. gf_accmul F acc (h ! i) (x ! i)) [0..<n - 1] 0 = x ! (n - 1))"

definition chk_begin :: "nat \<Rightarrow> nat list" where
  "chk_begin n = (fold (\<lambda>i h. h[i := n - i - 1]) [0..<n - 1] (replicate n 0))[n - 1 := 0]"

definition size_sub :: "nat \<Rightarrow> nat \<Rightarrow> nat" where
  "size_sub a b = (if b \<le> a then a - b else a + 2 ^ 64 - b)"

function chk_scan :: "nat \<Rightarrow> nat \<Rightarrow> nat list \<Rightarrow> nat \<Rightarrow> nat option" where
  "chk_scan qm1 n h i =
     (if h ! i \<ge> size_sub (size_sub qm1 i) 1 then
        (if i + 3 > n then None else chk_scan qm1 n h (i + 1))
      else Some i)"
  by pat_completeness auto
termination
  by (relation "measure (\<lambda>(qm1, n, h, i). n - i)") auto

declare chk_scan.simps [simp del]

fun chk_reset :: "nat list \<Rightarrow> nat \<Rightarrow> nat list" where
  "chk_reset h i = (if i = 0 then h else chk_reset (h[i - 1 := h ! i + 1]) (i - 1))"

declare chk_reset.simps [simp del]

definition chk_next :: "nat \<Rightarrow> nat \<Rightarrow> nat list \<Rightarrow> nat list option" where
  "chk_next qm1 n h =
     (case chk_scan qm1 n h 0 of
        None \<Rightarrow> None
      | Some i \<Rightarrow> Some (chk_reset (h[i := h ! i + 1]) i))"

partial_function (option) chk_all :: "nat \<Rightarrow> nat \<Rightarrow> nat list \<Rightarrow> nat list list option" where
  "chk_all qm1 n h =
     (case chk_next qm1 n h of
        None \<Rightarrow> Some [h]
      | Some h' \<Rightarrow> Option.bind (chk_all qm1 n h') (\<lambda>hs. Some (h # hs)))"

declare chk_all.simps [code]

section \<open>Codewords\<close>

definition cw_begin :: "nat \<Rightarrow> gf_elt list" where
  "cw_begin n = fold (\<lambda>i x. x[i := 0]) [0..<n] (replicate n 0)"

function cw_carry :: "nat \<Rightarrow> nat \<Rightarrow> gf_elt list \<Rightarrow> nat \<Rightarrow> nat \<times> gf_elt list" where
  "cw_carry qm1 n x i =
     (if i < n - 1 then
        (if x ! i = qm1 then cw_carry qm1 n (x[i := 0]) (i + 1) else (i, x))
      else (i, x))"
  by pat_completeness auto
termination
  by (relation "measure (\<lambda>(qm1, n, x, i). n - 1 - i)") auto

declare cw_carry.simps [simp del]

definition cw_next :: "gf_field \<Rightarrow> nat \<Rightarrow> nat list \<Rightarrow> gf_elt list \<Rightarrow> gf_elt list option" where
  "cw_next F n h x =
     (case cw_carry (gf_size_minus_1 F) n x 0 of
        (i, x1) \<Rightarrow>
          if i = n - 1 then None
          else Some ((x1[i := x1 ! i + 1])
                 [n - 1 := fold (\<lambda>k acc. gf_accmul F acc (h ! k) ((x1[i := x1 ! i + 1]) ! k))
                                [0..<n - 1] 0]))"

partial_function (option) cw_all ::
  "gf_field \<Rightarrow> nat \<Rightarrow> nat list \<Rightarrow> gf_elt list \<Rightarrow> gf_elt list list option" where
  "cw_all F n h x =
     (case cw_next F n h x of
        None \<Rightarrow> Some [x]
      | Some x' \<Rightarrow> Option.bind (cw_all F n h x') (\<lambda>xs. Some (x # xs)))"

declare cw_all.simps [code]

section \<open>Spectra\<close>

function sp_cmp_from :: "nat \<Rightarrow> nat list \<Rightarrow> nat list \<Rightarrow> nat \<Rightarrow> int" where
  "sp_cmp_from i a b qmax =
     (if i < qmax then
        (if a ! i = b ! i then sp_cmp_from (i + 1) a b qmax
         else (if b ! i > a ! i then 1 else - 1))
      else 0)"
  by pat_completeness auto
termination
  by (relation "measure (\<lambda>(i, a, b, qmax). qmax - i)") auto

declare sp_cmp_from.simps [simp del]

definition sp_cmp :: "nat list \<Rightarrow> nat list \<Rightarrow> nat \<Rightarrow> int" where
  "sp_cmp a b qmax = sp_cmp_from 2 a b qmax"

text \<open>
  The other variant of the program (neighbours enumerated by \<open>delta_begin\<close> and
  \<open>delta_next\<close>, spectra of \<open>qmax + 1\<close> counters) has its own \<open>sp_cmp\<close>, modelled
  here as \<open>sp_cmp_delta\<close>: it scans the indices \<open>0 \<le> i \<le> qmax\<close> and returns at the first
  difference \<open>(int)((long)b[i] - (long)a[i])\<close>, that is the difference of the two
  64-bit counters read as signed, wrapped to 64 bits and then cut to 32 bits.
\<close>

function sp_cmp_delta_from :: "nat \<Rightarrow> nat list \<Rightarrow> nat list \<Rightarrow> nat \<Rightarrow> int" where
  "sp_cmp_delta_from i a b qmax =
     (if i \<le> qmax then
        (if a ! i = b ! i then sp_cmp_delta_from (i + 1) a b qmax
         else signed_take_bit 31 (signed_take_bit 63
                (signed_take_bit 63 (int (b ! i)) - signed_take_bit 63 (int (a ! i)))))
      else 0)"
  by pat_completeness auto
termination
  by (relation "measure (\<lambda>(i, a, b, qmax). qmax + 1 - i)") auto

declare sp_cmp_delta_from.simps [simp del]

definition sp_cmp_delta :: "nat list \<Rightarrow> nat list \<Rightarrow> nat \<Rightarrow> int" where
  "sp_cmp_delta a b qmax = sp_cmp_delta_from 0 a b qmax"

definition sp_incr :: "nat list \<Rightarrow> nat \<Rightarrow> error + nat list" where
  "sp_incr S quad =
     (if quad < length S then Inr (S[quad := (S ! quad + 1) mod 2 ^ 64])
      else Inl SpectrumOutOfBounds)"

section \<open>Quadrances and neighbourhoods\<close>

definition quadrance :: "(int \<times> int) list \<Rightarrow> nat list \<Rightarrow> nat \<Rightarrow> nat \<Rightarrow> nat" where
  "quadrance C pi i j =
     nat (((fst (C ! (pi ! i)) - fst (C ! (pi ! j))) * (fst (C ! (pi ! i)) - fst (C ! (pi ! j)))
         + (snd (C ! (pi ! i)) - snd (C ! (pi ! j))) * (snd (C ! (pi ! i)) - snd (C ! (pi ! j))))
          mod 2 ^ 32)"

definition build_Q :: "nat \<Rightarrow> (int \<times> int) list \<Rightarrow> nat list \<Rightarrow> nat list" where
  "build_Q q C pi = concat (map (\<lambda>i. map (\<lambda>j. quadrance C pi i j) [0..<q]) [0..<q])"

definition sort_swap :: "nat \<Rightarrow> nat list \<Rightarrow> nat \<Rightarrow> nat \<Rightarrow> nat \<Rightarrow> nat list \<Rightarrow> nat list" where
  "sort_swap q Q i j k Vi =
     (if Q ! (i * q + Vi ! k) < Q ! (i * q + Vi ! j) then (Vi[j := Vi ! k])[k := Vi ! j] else Vi)"

definition sort_row :: "nat \<Rightarrow> nat list \<Rightarrow> nat \<Rightarrow> nat list" where
  "sort_row q Q i =
     fold (\<lambda>j Vi. fold (\<lambda>k Vi. sort_swap q Q i j k Vi) [j + 1..<q] Vi) [0..<q]
          (fold (\<lambda>j Vi. Vi[j := j]) [0..<q] (replicate q 0))"

definition build_V :: "nat \<Rightarrow> nat list \<Rightarrow> nat list" where
  "build_V q Q = concat (map (\<lambda>i. sort_row q Q i) [0..<q])"

definition build_cqmin :: "nat \<Rightarrow> nat list \<Rightarrow> nat list \<Rightarrow> nat" where
  "build_cqmin q Q V =
     fold (\<lambda>i c. if c > Q ! (i * q + V ! (i * q + 1)) then Q ! (i * q + V ! (i * q + 1)) else c)
          [1..<q] (Q ! 1)"

definition dcap_bound :: "nat \<Rightarrow> nat \<Rightarrow> nat \<Rightarrow> nat" where
  "dcap_bound qmax cqmin w =
     nat ((int qmax - int ((if w > 2 then w - 1 else 1) * cqmin)) mod 2 ^ 64)"

function dcap_find :: "nat \<Rightarrow> nat list \<Rightarrow> nat list \<Rightarrow> nat \<Rightarrow> nat \<Rightarrow> nat \<Rightarrow> nat" where
  "dcap_find q Q V bound j d =
     (if d < q then
        (if Q ! (j * q + V ! (j * q + d)) > bound then d else dcap_find q Q V bound j (d + 1))
      else d)"
  by pat_completeness auto
termination
  by (relation "measure (\<lambda>(q, Q, V, bound, j, d). q - d)") auto

declare dcap_find.simps [simp del]

definition build_dcap :: "nat \<Rightarrow> nat \<Rightarrow> nat list \<Rightarrow> nat list \<Rightarrow> nat \<Rightarrow> nat \<Rightarrow> nat list" where
  "build_dcap n q Q V qmax cqmin =
     concat (map (\<lambda>w. map (\<lambda>j. dcap_find q Q V (dcap_bound qmax cqmin w) j 0) [0..<q]) [0..<n])"

section \<open>Neighbour traversal\<close>

record search_ctx =
  c_n :: nat
  c_q :: nat
  c_qmax :: nat
  c_F :: gf_field
  c_Q :: "nat list"
  c_V :: "nat list"
  c_dcap :: "nat list"

record delta_state =
  da :: "nat list"
  df :: "nat list"
  dd :: "int list"
  dw :: nat

definition nb_y :: "search_ctx \<Rightarrow> nat list \<Rightarrow> gf_elt list \<Rightarrow> nat list \<Rightarrow> gf_elt \<times> nat" where
  "nb_y c h x a =
     fold (\<lambda>i (yl, quad).
             (gf_accmul (c_F c) yl (h ! i) (c_V c ! (x ! i * c_q c + a ! i)),
              (quad + c_Q c ! (x ! i * c_q c + c_V c ! (x ! i * c_q c + a ! i))) mod 2 ^ 32))
          [0..<c_n c - 1] (0, 0)"

definition nb_quad :: "search_ctx \<Rightarrow> nat list \<Rightarrow> gf_elt list \<Rightarrow> nat list \<Rightarrow> nat" where
  "nb_quad c h x a =
     (case nb_y c h x a of
        (yl, quad) \<Rightarrow> (quad + c_Q c ! (x ! (c_n c - 1) * c_q c + yl)) mod 2 ^ 32)"

definition nb_visit ::
  "search_ctx \<Rightarrow> nat list \<Rightarrow> gf_elt list \<Rightarrow> nat list \<Rightarrow> nat list \<Rightarrow> error + nat list" where
  "nb_visit c h x a S =
     (if nb_quad c h x a < c_qmax c then sp_incr S (nb_quad c h x a) else Inr S)"

definition nb_turn :: "search_ctx \<Rightarrow> gf_elt list \<Rightarrow> nat \<Rightarrow> delta_state \<Rightarrow> delta_state" where
  "nb_turn c x j s =
     (if da s ! j = 0 \<or> da s ! j = c_q c - 1
         \<or> nat (int (da s ! j) + dd s ! j) \<ge> c_dcap c ! (dw s * c_q c + x ! j)
      then s\<lparr>dd := (dd s)[j := - (dd s ! j)],
              df := ((df s)[j := df s ! (j + 1)])[j + 1 := j + 1]\<rparr>
      else s)"

definition nb_move :: "nat \<Rightarrow> delta_state \<Rightarrow> delta_state" where
  "nb_move j s =
     s\<lparr>da := (da s)[j := nat (int (da s ! j) + dd s ! j)],
        dw := (if nat (int (da s ! j) + dd s ! j) = 0
               then (if da s ! j = 0 then dw s + 1 else dw s) - 1
               else (if da s ! j = 0 then dw s + 1 else dw s))\<rparr>"

definition nb_advance :: "search_ctx \<Rightarrow> gf_elt list \<Rightarrow> nat \<Rightarrow> delta_state \<Rightarrow> delta_state" where
  "nb_advance c x j s = nb_turn c x j (nb_move j (s\<lparr>df := (df s)[0 := 0]\<rparr>))"

partial_function (option) nb_loop ::
  "search_ctx \<Rightarrow> nat list \<Rightarrow> gf_elt list \<Rightarrow> delta_state \<Rightarrow> nat list \<Rightarrow> (error + nat list) option" where
  "nb_loop c h x s S =
     (case nb_visit c h x (da s) S of
        Inl e \<Rightarrow> Some (Inl e)
      | Inr S' \<Rightarrow>
          if df s ! 0 = c_n c - 1 then Some (Inr S')
          else nb_loop c h x (nb_advance c x (df s ! 0) s) S')"

declare nb_loop.simps [code]

definition nb_init :: "nat \<Rightarrow> delta_state" where
  "nb_init n =
     \<lparr>da = replicate (n - 1) 0, df = [0..<n], dd = replicate (n - 1) 1, dw = 0\<rparr>"

definition neighbors ::
  "search_ctx \<Rightarrow> nat list \<Rightarrow> gf_elt list \<Rightarrow> nat list \<Rightarrow> (error + nat list) option" where
  "neighbors c h x S = nb_loop c h x (nb_init (c_n c)) S"

text \<open>Reference: the exhaustive loop over every rank vector.\<close>

definition brute_neighbors ::
  "search_ctx \<Rightarrow> nat list \<Rightarrow> gf_elt list \<Rightarrow> nat list \<Rightarrow> error + nat list" where
  "brute_neighbors c h x S =
     fold (\<lambda>a r. case r of Inl e \<Rightarrow> Inl e | Inr S' \<Rightarrow> nb_visit c h x a S')
          (List.n_lists (c_n c - 1) [0..<c_q c]) (Inr S)"

section \<open>The search\<close>

partial_function (option) cw_loop ::
  "search_ctx \<Rightarrow> nat list \<Rightarrow> gf_elt list \<Rightarrow> nat list \<Rightarrow> nat list \<Rightarrow> (error + nat list) option" where
  "cw_loop c h x Sbest Scur =
     (case neighbors c h x Scur of
        None \<Rightarrow> None
      | Some (Inl e) \<Rightarrow> Some (Inl e)
      | Some (Inr S') \<Rightarrow>
         (case cw_next (c_F c) (c_n c) h x of
            None \<Rightarrow> Some (Inr S')
          | Some x' \<Rightarrow>
              if sp_cmp Sbest S' (c_qmax c) \<le> 0 then cw_loop c h x' Sbest S'
              else Some (Inr S')))"

declare cw_loop.simps [code]

partial_function (option) chk_loop ::
  "search_ctx \<Rightarrow> nat list \<Rightarrow> nat list \<Rightarrow> (nat list \<times> nat list) list
     \<Rightarrow> (error + (nat list \<times> nat list) list) option" where
  "chk_loop c h Sbest out =
     (case cw_loop c h (cw_begin (c_n c)) Sbest (replicate (c_qmax c) 0) of
        None \<Rightarrow> None
      | Some (Inl e) \<Rightarrow> Some (Inl e)
      | Some (Inr Scur) \<Rightarrow>
         (case chk_next (gf_size_minus_1 (c_F c)) (c_n c) h of
            None \<Rightarrow>
              Some (Inr (if sp_cmp Sbest Scur (c_qmax c) \<le> 0 then out @ [(h, Scur)] else out))
          | Some h' \<Rightarrow>
              chk_loop c h'
                (if sp_cmp Sbest Scur (c_qmax c) \<le> 0 then Scur else Sbest)
                (if sp_cmp Sbest Scur (c_qmax c) \<le> 0 then out @ [(h, Scur)] else out)))"

declare chk_loop.simps [code]

definition search :: "search_ctx \<Rightarrow> (error + (nat list \<times> nat list) list) option" where
  "search c = chk_loop c (chk_begin (c_n c)) (replicate (c_qmax c) (2 ^ 32 - 1)) []"

fun log2_loop :: "nat \<Rightarrow> nat \<Rightarrow> nat" where
  "log2_loop q m = (if q \<le> 1 then m else log2_loop (q div 2) (m + 1))"

declare log2_loop.simps [simp del]

text \<open>
  Reading the mapping: \<open>q\<close> values are read one by one from the mapping file, whose
  numbers are the list \<open>pis\<close>; a missing value is the fatal error "Fichier mapping
  incomplet", a value \<open>\<ge> q\<close> the fatal error "Valeur de mapping hors bornes". Values
  after the first \<open>q\<close> are not read.
\<close>

function mapping_scan :: "nat \<Rightarrow> nat list \<Rightarrow> nat \<Rightarrow> error option" where
  "mapping_scan q pis i =
     (if i < q then
        (if length pis \<le> i then Some MappingIncomplete
         else if pis ! i \<ge> q then Some MappingOutOfRange
         else mapping_scan q pis (i + 1))
      else None)"
  by pat_completeness auto
termination
  by (relation "measure (\<lambda>(q, pis, i). q - i)") auto

declare mapping_scan.simps [simp del]

text \<open>
  The set-up of \<open>main\<close>: the constellation \<open>C\<close> has \<open>q\<close> points, \<open>q\<close> must be a power
  of two \<open>2^m\<close> and the code length below \<open>q\<close>; the field comes from \<open>primitives[m]\<close>
  (the table ends at \<open>m = 10\<close>); then the mapping is read and the tables are built.
\<close>

definition make_ctx :: "nat \<Rightarrow> nat \<Rightarrow> (int \<times> int) list \<Rightarrow> nat list \<Rightarrow> error + search_ctx" where
  "make_ctx n qmax C pis =
     (if 2 ^ log2_loop (length C) 0 \<noteq> length C then Inl NotPowerOfTwo
      else if n \<ge> length C then Inl CodelengthTooLarge
      else case gf_init (primitives ! log2_loop (length C) 0) of
             Inl e \<Rightarrow> Inl e
           | Inr F \<Rightarrow>
              (case mapping_scan (length C) pis 0 of
                 Some e \<Rightarrow> Inl e
               | None \<Rightarrow>
                   Inr \<lparr>c_n = n, c_q = length C, c_qmax = qmax, c_F = F,
                      c_Q = build_Q (length C) C (take (length C) pis),
                      c_V = build_V (length C) (build_Q (length C) C (take (length C) pis)),
                      c_dcap = build_dcap n (length C) (build_Q (length C) C (take (length C) pis))
                                 (build_V (length C) (build_Q (length C) C (take (length C) pis)))
                                 qmax
                                 (build_cqmin (length C)
                                    (build_Q (length C) C (take (length C) pis))
                                    (build_V (length C)
                                       (build_Q (length C) C (take (length C) pis))))\<rparr>))"

definition spectra_main ::
  "nat \<Rightarrow> nat \<Rightarrow> (int \<times> int) list \<Rightarrow> nat list \<Rightarrow> (error + (nat list \<times> nat list) list) option" where
  "spectra_main n qmax C pi =
     (case make_ctx n qmax C pi of Inl e \<Rightarrow> Some (Inl e) | Inr c \<Rightarrow> search c)"

section \<open>Notions used in the statements and proofs\<close>

text \<open>Codewords reached by \<open>cw_begin\<close> followed by calls of \<open>cw_next\<close> that returned true.\<close>

inductive cw_reach :: "gf_field \<Rightarrow> nat \<Rightarrow> nat list \<Rightarrow> gf_elt list \<Rightarrow> bool"
  for F :: gf_field and n :: nat and h :: "nat list" where
  cw_reach_begin: "cw_reach F n h (cw_begin n)"
| cw_reach_next: "cw_reach F n h x \<Longrightarrow> cw_next F n h x = Some x' \<Longrightarrow> cw_reach F n h x'"

text \<open>Parities reached by \<open>chk_begin\<close> followed by calls of \<open>chk_next\<close> that returned true.\<close>

inductive chk_reach :: "nat \<Rightarrow> nat \<Rightarrow> nat list \<Rightarrow> bool"
  for qm1 :: nat and n :: nat where
  chk_reach_begin: "chk_reach qm1 n (chk_begin n)"
| chk_reach_next: "chk_reach qm1 n h \<Longrightarrow> chk_next qm1 n h = Some h' \<Longrightarrow> chk_reach qm1 n h'"

text \<open>
  The whole constraint \<open>\<Sum> \<alpha>^(h_i) \<cdot> x_i\<close> over all \<open>n\<close> coordinates, accumulated with
  \<open>gf_accmul\<close> (the loop of the variant of \<open>chk_valid\<close> that compares the sum with zero).
\<close>

definition chk_sum :: "gf_field \<Rightarrow> nat \<Rightarrow> nat list \<Rightarrow> gf_elt list \<Rightarrow> gf_elt" where
  "chk_sum F n h x = fold (\<lambda>i acc. gf_accmul F acc (h ! i) (x ! i)) [0..<n] 0"

text \<open>The successive values of \<open>x\<close> in the table loop of \<open>gf_init\<close>.\<close>

definition gf_orbit :: "nat \<Rightarrow> nat \<Rightarrow> nat \<Rightarrow> gf_elt" where
  "gf_orbit P sz k = (gf_next P sz ^^ k) 1"

text \<open>
  A linear check along that sequence: the next \<open>r\<close> values are below \<open>sz\<close> and differ
  from 1, and the value after them is 1.
\<close>

fun gf_orbit_chk :: "nat \<Rightarrow> nat \<Rightarrow> nat \<Rightarrow> gf_elt \<Rightarrow> bool" where
  "gf_orbit_chk P sz r x =
     (if r = 0 then x = 1
      else x < sz \<and> x \<noteq> 1 \<and> gf_orbit_chk P sz (r - 1) (gf_next P sz x))"

declare gf_orbit_chk.simps [simp del]

text \<open>Well-formed tables: \<open>gf_exp\<close> enumerates the nonzero elements and \<open>gf_log\<close> inverts it.\<close>

definition gf_tables_ok :: "gf_field \<Rightarrow> bool" where
  "gf_tables_ok F \<longleftrightarrow>
     2 \<le> gf_size F \<and> gf_size_minus_1 F = gf_size F - 1
     \<and> length (gf_exp F) = gf_size F \<and> length (gf_log F) = gf_size F
     \<and> (\<forall>k < gf_size F - 1. 1 \<le> gf_exp F ! k \<and> gf_exp F ! k < gf_size F
            \<and> gf_log F ! (gf_exp F ! k) = int k)
     \<and> (\<forall>x. 1 \<le> x \<and> x < gf_size F \<longrightarrow> (\<exists>k < gf_size F - 1. gf_exp F ! k = x))"

text \<open>The free coordinates \<open>x[0..m-1]\<close> of a codeword read as a number in base \<open>q\<close>.\<close>

definition cw_val :: "nat \<Rightarrow> nat \<Rightarrow> gf_elt list \<Rightarrow> nat" where
  "cw_val q m x = (\<Sum>k < m. x ! k * q ^ k)"

text \<open>
  Parities in strictly decreasing form: length \<open>n\<close>, last exponent 0, every exponent
  strictly larger than its right neighbour, and the first one at most \<open>q - 2\<close>.
\<close>

definition chk_strict :: "nat \<Rightarrow> nat \<Rightarrow> nat list \<Rightarrow> bool" where
  "chk_strict q n h \<longleftrightarrow>
     length h = n \<and> h ! (n - 1) = 0 \<and> (\<forall>i. i + 1 < n \<longrightarrow> h ! (i + 1) < h ! i) \<and> h ! 0 \<le> q - 2"

section \<open>Properties of the spectrum comparator\<close>

lemma sp_cmp_from_refl: "sp_cmp_from i a a qmax = 0"
proof (induction "qmax - i" arbitrary: i)
  case 0
  then show ?case by (subst sp_cmp_from.simps) simp
next
  case (Suc k)
  then have "sp_cmp_from (i + 1) a a qmax = 0" by simp
  then show ?case by (subst sp_cmp_from.simps) simp
qed

lemma sp_cmp_from_antisym: "sp_cmp_from i a b qmax = - sp_cmp_from i b a qmax"
proof (induction i a b qmax rule: sp_cmp_from.induct)
  case (1 i a b qmax)
  show ?case
  proof (cases "i < qmax \<and> a ! i = b ! i")
    case True
    with 1 have "sp_cmp_from (i + 1) a b qmax = - sp_cmp_from (i + 1) b a qmax" by simp
    with True show ?thesis
      by (subst sp_cmp_from.simps, subst (2) sp_cmp_from.simps) simp
  next
    case False
    then show ?thesis
      by (subst sp_cmp_from.simps, subst (2) sp_cmp_from.simps) auto
  qed
qed

lemma sp_cmp_from_trans:
  "sp_cmp_from i a b qmax = sp_cmp_from i b c qmax \<Longrightarrow>
   sp_cmp_from i a c qmax = sp_cmp_from i a b qmax"
proof (induction i a b qmax rule: sp_cmp_from.induct)
  case (1 i a b qmax)
  show ?case
  proof (cases "i < qmax")
    case False
    then show ?thesis
      by (subst sp_cmp_from.simps, subst (2) sp_cmp_from.simps) simp
  next
    case lt: True
    show ?thesis
    proof (cases "a ! i = b ! i")
      case ab: True
      show ?thesis
      proof (cases "b ! i = c ! i")
        case bc: True
        from "1.prems" lt ab bc
        have "sp_cmp_from (i + 1) a b qmax = sp_cmp_from (i + 1) b c qmax"
          by (subst (asm) sp_cmp_from.simps, subst (asm) (2) sp_cmp_from.simps) simp
        with 1 lt ab have "sp_cmp_from (i + 1) a c qmax = sp_cmp_from (i + 1) a b qmax"
          by simp
        with lt ab bc show ?thesis
          by (subst sp_cmp_from.simps, subst (2) sp_cmp_from.simps) simp
      next
        case bc: False
        from "1.prems" lt ab bc
        have "sp_cmp_from i a b qmax = (if c ! i > b ! i then 1 else - 1)"
          by (subst (asm) (2) sp_cmp_from.simps) simp
        moreover from lt ab bc
        have "sp_cmp_from i a c qmax = (if c ! i > b ! i then 1 else - 1)"
          by (subst sp_cmp_from.simps) simp
        ultimately show ?thesis by simp
      qed
    next
      case ab: False
      then have r: "sp_cmp_from i a b qmax = (if b ! i > a ! i then 1 else - 1)"
        using lt by (subst sp_cmp_from.simps) simp
      show ?thesis
      proof (cases "b ! i = c ! i")
        case bc: True
        with lt ab r show ?thesis
          by (subst sp_cmp_from.simps) auto
      next
        case bc: False
        with lt have "sp_cmp_from i b c qmax = (if c ! i > b ! i then 1 else - 1)"
          by (subst sp_cmp_from.simps) simp
        with "1.prems" r ab bc lt show ?thesis
          by (subst sp_cmp_from.simps) (auto split: if_splits)
      qed
    qed
  qed
qed

lemma sp_cmp_from_cong:
  "(\<And>k. i \<le> k \<Longrightarrow> k < qmax \<Longrightarrow> a ! k = a' ! k \<and> b ! k = b' ! k) \<Longrightarrow>
   sp_cmp_from i a b qmax = sp_cmp_from i a' b' qmax"
proof (induction "qmax - i" arbitrary: i)
  case 0
  then show ?case by (subst sp_cmp_from.simps, subst (2) sp_cmp_from.simps) simp
next
  case (Suc d)
  then have "sp_cmp_from (i + 1) a b qmax = sp_cmp_from (i + 1) a' b' qmax" by simp
  moreover from Suc have "a ! i = a' ! i" "b ! i = b' ! i" by simp_all
  ultimately show ?case by (subst sp_cmp_from.simps, subst (2) sp_cmp_from.simps) simp
qed

text \<open>
  The comparator \<open>sp_cmp\<close> of the depth-adaptive variant is a consistent ordering of
  spectra (arrays of \<open>qmax\<close> counters): a spectrum compares equal to itself; swapping
  the arguments negates the answer; and whenever \<open>a\<close> against \<open>b\<close> and \<open>b\<close> against
  \<open>c\<close> give the same answer, \<open>a\<close> against \<open>c\<close> gives that answer too.
\<close>

theorem sp_cmp_consistent:
  assumes "length S = qmax" and "length a = qmax" and "length b = qmax" and "length c = qmax"
  shows "sp_cmp S S qmax = 0
       \<and> sp_cmp a b qmax = - sp_cmp b a qmax
       \<and> (sp_cmp a b qmax = sp_cmp b c qmax \<longrightarrow> sp_cmp a c qmax = sp_cmp a b qmax)"
  unfolding sp_cmp_def
  using sp_cmp_from_refl [of 2 S qmax] sp_cmp_from_antisym [of 2 a b qmax]
    sp_cmp_from_trans [of 2 a b qmax c]
  by blast

theorem sp_cmp_consistent_witness:
  "length [5, 0, 1 :: nat] = 3 \<and> length [7, 1, 2 :: nat] = 3 \<and> length [0, 9, 3 :: nat] = 3
   \<and> sp_cmp [5, 0, 1] [5, 0, 1] 3 = 0
   \<and> sp_cmp [5, 0, 1] [7, 1, 2] 3 = 1 \<and> sp_cmp [7, 1, 2] [5, 0, 1] 3 = - 1
   \<and> sp_cmp [7, 1, 2] [0, 9, 3] 3 = 1 \<and> sp_cmp [5, 0, 1] [0, 9, 3] 3 = 1"
  using sp_cmp_consistent [of "[5, 0, 1]" 3 "[5, 0, 1]" "[7, 1, 2]" "[0, 9, 3]"]
  by (simp add: sp_cmp_def sp_cmp_from.simps)

text \<open>
  \<open>sp_cmp\<close> reads the indices \<open>2 \<le> k < qmax\<close> only: changing the two spectra
  anywhere else (in particular the counters of quadrances 0 and 1) does not change
  the answer, and two spectra that agree on every index of \<open>[2, qmax)\<close> compare equal.
\<close>

theorem sp_cmp_ignores_low:
  "((\<forall>k. 2 \<le> k \<and> k < qmax \<longrightarrow> a ! k = a' ! k \<and> b ! k = b' ! k)
      \<longrightarrow> sp_cmp a b qmax = sp_cmp a' b' qmax)
   \<and> ((\<forall>k. 2 \<le> k \<and> k < qmax \<longrightarrow> a ! k = b ! k) \<longrightarrow> sp_cmp a b qmax = 0)"
proof (intro conjI impI)
  assume "\<forall>k. 2 \<le> k \<and> k < qmax \<longrightarrow> a ! k = a' ! k \<and> b ! k = b' ! k"
  then show "sp_cmp a b qmax = sp_cmp a' b' qmax"
    unfolding sp_cmp_def by (intro sp_cmp_from_cong) simp
next
  assume "\<forall>k. 2 \<le> k \<and> k < qmax \<longrightarrow> a ! k = b ! k"
  then have "sp_cmp_from 2 a b qmax = sp_cmp_from 2 a a qmax"
    by (intro sp_cmp_from_cong) simp
  then show "sp_cmp a b qmax = 0"
    by (simp add: sp_cmp_def sp_cmp_from_refl)
qed

theorem sp_cmp_ignores_low_witness:
  "sp_cmp [16, 0, 48] [16, 1, 50] 3 = sp_cmp [0, 7, 48] [3, 3, 50] 3
   \<and> sp_cmp [16, 0, 48] [0, 7, 48] 3 = 0"
proof -
  have h: "\<forall>k. 2 \<le> k \<and> k < (3::nat) \<longrightarrow> [16, 0, 48 :: nat] ! k = [0, 7, 48] ! k
        \<and> [16, 1, 50 :: nat] ! k = [3, 3, 50] ! k"
  proof (intro allI impI)
    fix k :: nat assume "2 \<le> k \<and> k < 3"
    then have "k = 2" by simp
    then show "[16, 0, 48 :: nat] ! k = [0, 7, 48] ! k \<and> [16, 1, 50 :: nat] ! k = [3, 3, 50] ! k"
      by simp
  qed
  then have h2: "\<forall>k. 2 \<le> k \<and> k < (3::nat) \<longrightarrow> [16, 0, 48 :: nat] ! k = [0, 7, 48] ! k"
    by blast
  from h h2 sp_cmp_ignores_low [of 3 "[16, 0, 48]" "[0, 7, 48]" "[16, 1, 50]" "[3, 3, 50]"]
    sp_cmp_ignores_low [of 3 "[16, 0, 48]" "[0, 7, 48]" "[0, 7, 48]" "[0, 7, 48]"]
  show ?thesis by blast
qed

text \<open>
  Claim C9. The spectrum comparator is a consistent ordering: reflexive, antisymmetric
  and transitive. This holds of \<open>sp_cmp\<close> (theorem \<open>sp_cmp_consistent\<close>) and fails for
  \<open>sp_cmp_delta\<close>, the comparator of the other variant, whose result is the difference
  of the counters cut to 32 bits. With one counter per spectrum (\<open>qmax = 0\<close>): the
  spectra \<open>[0]\<close> and \<open>[2^31]\<close> compare negative in both orders; \<open>[0]\<close>, \<open>[1610612736]\<close>
  and \<open>[3221225472]\<close> compare positive, positive, and then negative from the first to
  the third; and \<open>[0]\<close> and \<open>[2^32]\<close> differ but compare equal.
\<close>

theorem sp_cmp_delta_inconsistent:
  "sp_cmp_delta [0] [2147483648] 0 = - 2147483648
   \<and> sp_cmp_delta [2147483648] [0] 0 = - 2147483648
   \<and> sp_cmp_delta [0] [1610612736] 0 = 1610612736
   \<and> sp_cmp_delta [1610612736] [3221225472] 0 = 1610612736
   \<and> sp_cmp_delta [0] [3221225472] 0 = - 1073741824
   \<and> sp_cmp_delta [0] [4294967296] 0 = 0"
  by (simp add: sp_cmp_delta_def sp_cmp_delta_from.simps)

section \<open>Evaluation of list operations at numerals\<close>

lemma replicate_numeral_eval: "replicate (numeral k) x = x # replicate (pred_numeral k) x"
  by (simp add: numeral_eq_Suc)

lemma list_update_numeral_eval: "(x # xs)[numeral k := y] = x # xs[pred_numeral k := y]"
  by (simp add: numeral_eq_Suc)

lemmas eval_list = replicate_numeral_eval list_update_numeral_eval

section \<open>The field tables\<close>

lemma gf_next_zero: "0 < sz \<Longrightarrow> gf_next P sz 0 = 0"
  by (simp add: gf_next_def)

lemma gf_next_inj:
  assumes "odd P" and "x < 2 ^ 31" and "y < 2 ^ 31" and "gf_next P sz x = gf_next P sz y"
  shows "x = y"
proof -
  have mx: "(2 * x) mod 2 ^ 32 = 2 * x" and my: "(2 * y) mod 2 ^ 32 = 2 * y"
    using assms(2,3) by simp_all
  have cancel: "a = b" if "a XOR P = b XOR P" for a b :: nat
  proof -
    have "(a XOR P) XOR P = (b XOR P) XOR P" using that by simp
    then show ?thesis by (simp add: xor.assoc)
  qed
  have par: "odd ((2 * a) XOR P)" for a :: nat
    using assms(1) by (simp add: even_xor_iff)
  show ?thesis
  proof (cases "sz \<le> 2 * x")
    case True
    note cx = this
    show ?thesis
    proof (cases "sz \<le> 2 * y")
      case True
      with cx assms(4) mx my have "(2 * x) XOR P = (2 * y) XOR P"
        by (simp add: gf_next_def)
      then have "2 * x = 2 * y" by (rule cancel)
      then show ?thesis by simp
    next
      case False
      with cx assms(4) mx my have "(2 * x) XOR P = 2 * y"
        by (simp add: gf_next_def)
      with par [of x] show ?thesis by simp
    qed
  next
    case False
    note cx = this
    show ?thesis
    proof (cases "sz \<le> 2 * y")
      case True
      with cx assms(4) mx my have "2 * x = (2 * y) XOR P"
        by (simp add: gf_next_def)
      with par [of y] show ?thesis by (metis even_mult_iff even_numeral)
    next
      case False
      with cx assms(4) mx my show ?thesis by (simp add: gf_next_def)
    qed
  qed
qed

lemma gf_orbit_Suc: "gf_orbit P sz (Suc k) = gf_next P sz (gf_orbit P sz k)"
  by (simp add: gf_orbit_def)

lemma gf_orbit_0: "gf_orbit P sz 0 = 1"
  by (simp add: gf_orbit_def)

lemma gf_orbit_chk_sound:
  "gf_orbit_chk P sz r (gf_orbit P sz j) \<Longrightarrow>
   (\<forall>i < r. gf_orbit P sz (j + i) < sz \<and> gf_orbit P sz (j + i) \<noteq> 1) \<and> gf_orbit P sz (j + r) = 1"
proof (induction r arbitrary: j)
  case 0
  then show ?case by (simp add: gf_orbit_chk.simps)
next
  case (Suc r)
  from Suc.prems have a: "gf_orbit P sz j < sz" "gf_orbit P sz j \<noteq> 1"
    and b: "gf_orbit_chk P sz r (gf_orbit P sz (Suc j))"
    by (simp_all add: gf_orbit_chk.simps [of P sz "Suc r"] gf_orbit_Suc)
  from Suc.IH [OF b]
  have ih: "\<forall>i < r. gf_orbit P sz (Suc j + i) < sz \<and> gf_orbit P sz (Suc j + i) \<noteq> 1"
    and last: "gf_orbit P sz (Suc j + r) = 1" by simp_all
  have "gf_orbit P sz (j + i) < sz \<and> gf_orbit P sz (j + i) \<noteq> 1" if "i < Suc r" for i
  proof (cases i)
    case 0
    with a show ?thesis by simp
  next
    case (Suc i')
    with that ih show ?thesis by simp
  qed
  with last show ?case by simp
qed

lemma gf_orbit_zero_stays:
  "0 < sz \<Longrightarrow> gf_orbit P sz j = 0 \<Longrightarrow> gf_orbit P sz (j + d) = 0"
  by (induction d) (simp_all add: gf_orbit_Suc gf_next_zero)

text \<open>What the linear check gives: the sequence runs through distinct nonzero elements.\<close>

lemma gf_orbit_props:
  assumes chk: "gf_orbit_chk P sz (sz - 2) (gf_next P sz 1)"
    and odd: "odd P" and sz: "2 \<le> sz" "sz \<le> 2 ^ 31"
  shows "gf_orbit P sz (sz - 1) = 1"
    and "\<And>k. k < sz - 1 \<Longrightarrow> 1 \<le> gf_orbit P sz k \<and> gf_orbit P sz k < sz"
    and "\<And>i j. i < sz - 1 \<Longrightarrow> j < sz - 1 \<Longrightarrow> gf_orbit P sz i = gf_orbit P sz j \<Longrightarrow> i = j"
proof -
  have "gf_orbit_chk P sz (sz - 2) (gf_orbit P sz 1)"
    using chk by (simp add: gf_orbit_def)
  from gf_orbit_chk_sound [OF this]
  have mid: "\<forall>i < sz - 2. gf_orbit P sz (1 + i) < sz \<and> gf_orbit P sz (1 + i) \<noteq> 1"
    and last: "gf_orbit P sz (1 + (sz - 2)) = 1" by simp_all
  from last sz show one: "gf_orbit P sz (sz - 1) = 1"
    by (simp add: Suc_diff_Suc numeral_2_eq_2)
  have lt: "gf_orbit P sz k < sz" if "k < sz - 1" for k
  proof (cases k)
    case 0
    with sz show ?thesis by (simp add: gf_orbit_0)
  next
    case (Suc k')
    with that mid show ?thesis by simp
  qed
  have ne1: "gf_orbit P sz k \<noteq> 1" if "0 < k" "k < sz - 1" for k
  proof (cases k)
    case 0
    with that show ?thesis by simp
  next
    case (Suc k')
    with that mid show ?thesis by simp
  qed
  have ne0: "gf_orbit P sz k \<noteq> 0" if "k < sz - 1" for k
  proof
    assume "gf_orbit P sz k = 0"
    with sz have "gf_orbit P sz (k + (sz - 1 - k)) = 0"
      by (intro gf_orbit_zero_stays) simp_all
    with that one show False by simp
  qed
  show "1 \<le> gf_orbit P sz k \<and> gf_orbit P sz k < sz" if "k < sz - 1" for k
    using lt [OF that] ne0 [OF that] by (simp add: Suc_le_eq)
  have inj: "i < j \<Longrightarrow> j < sz - 1 \<Longrightarrow> gf_orbit P sz i \<noteq> gf_orbit P sz j" for i j
  proof (induction i arbitrary: j)
    case 0
    with ne1 [of j] show ?case by (simp add: gf_orbit_0)
  next
    case (Suc i)
    then obtain j' where j: "j = Suc j'" by (cases j) simp_all
    show ?case
    proof
      assume "gf_orbit P sz (Suc i) = gf_orbit P sz j"
      then have e: "gf_next P sz (gf_orbit P sz i) = gf_next P sz (gf_orbit P sz j')"
        by (simp add: j gf_orbit_Suc)
      from Suc.prems j have "i < sz - 1" "j' < sz - 1" by simp_all
      then have "gf_orbit P sz i < 2 ^ 31" "gf_orbit P sz j' < 2 ^ 31"
        using lt [of i] lt [of j'] sz by simp_all
      from gf_next_inj [OF odd this e] have "gf_orbit P sz i = gf_orbit P sz j'" .
      moreover from Suc.prems j have "i < j'" "j' < sz - 1" by simp_all
      ultimately show False using Suc.IH [of j'] by simp
    qed
  qed
  show "i = j" if "i < sz - 1" "j < sz - 1" "gf_orbit P sz i = gf_orbit P sz j" for i j
    using that inj [of i j] inj [of j i] by (cases i j rule: linorder_cases) simp_all
qed

text \<open>The table loop writes the sequence into \<open>gf_exp\<close> and its inverse into \<open>gf_log\<close>.\<close>

lemma gf_fill_spec:
  assumes "gf_fill P sz k x lg ex = (xf, lgf, exf)"
    and "x = gf_orbit P sz k" and "k \<le> sz - 1"
    and "length lg = sz" and "length ex = sz"
    and "\<forall>i < k. ex ! i = gf_orbit P sz i \<and> lg ! gf_orbit P sz i = int i"
    and "\<And>i. i < sz - 1 \<Longrightarrow> gf_orbit P sz i < sz"
    and "\<And>i j. i < sz - 1 \<Longrightarrow> j < sz - 1 \<Longrightarrow> gf_orbit P sz i = gf_orbit P sz j \<Longrightarrow> i = j"
  shows "xf = gf_orbit P sz (sz - 1) \<and> length lgf = sz \<and> length exf = sz
       \<and> (\<forall>i < sz - 1. exf ! i = gf_orbit P sz i \<and> lgf ! gf_orbit P sz i = int i)"
  using assms
proof (induction P sz k x lg ex rule: gf_fill.induct)
  case (1 P sz k x lg ex)
  show ?case
  proof (cases "k < sz - 1")
    case False
    with "1.prems"(3) have k: "k = sz - 1" by simp
    from False "1.prems"(1) have "xf = x \<and> lgf = lg \<and> exf = ex"
      by (simp add: gf_fill.simps [of P sz k])
    with "1.prems" k show ?thesis by simp
  next
    case True
    from True "1.prems"(1)
    have run: "gf_fill P sz (k + 1) (gf_next P sz x) (lg[x := int k]) (ex[k := x]) = (xf, lgf, exf)"
      by (simp add: gf_fill.simps [of P sz k])
    have xlt: "x < sz" using "1.prems"(2,7) True by simp
    have tabs: "\<forall>i < k + 1. (ex[k := x]) ! i = gf_orbit P sz i
                  \<and> (lg[x := int k]) ! gf_orbit P sz i = int i"
    proof (intro allI impI)
      fix i assume i: "i < k + 1"
      show "(ex[k := x]) ! i = gf_orbit P sz i \<and> (lg[x := int k]) ! gf_orbit P sz i = int i"
      proof (cases "i = k")
        case True
        with xlt \<open>k < sz - 1\<close> "1.prems"(2,4,5) show ?thesis by simp
      next
        case False
        with i have ik: "i < k" by simp
        with True have "gf_orbit P sz i \<noteq> gf_orbit P sz k"
          using "1.prems"(8) [of i k] by auto
        with ik "1.prems"(2,6) show ?thesis by simp
      qed
    qed
    show ?thesis
    proof (rule "1.IH" [OF True run])
      show "gf_next P sz x = gf_orbit P sz (k + 1)"
        using "1.prems"(2) by (simp add: gf_orbit_Suc)
      show "k + 1 \<le> sz - 1" using True by simp
      show "length (lg[x := int k]) = sz" "length (ex[k := x]) = sz"
        using "1.prems"(4,5) by simp_all
      show "\<forall>i < k + 1. (ex[k := x]) ! i = gf_orbit P sz i
                  \<and> (lg[x := int k]) ! gf_orbit P sz i = int i" by (rule tabs)
    qed (use "1.prems"(7,8) in auto)
  qed
qed

lemma gf_init_ok:
  assumes size: "gf_size_loop P 1 div 2 = sz"
    and chk: "gf_orbit_chk P sz (sz - 2) (gf_next P sz 1)"
    and odd: "odd P" and sz: "2 \<le> sz" "sz \<le> 2 ^ 31"
  shows "\<exists>F. gf_init P = Inr F \<and> gf_size F = sz \<and> gf_tables_ok F"
proof -
  note orb = gf_orbit_props [OF chk odd sz]
  obtain xf lgf exf
    where run: "gf_fill P sz 0 1 ((replicate sz 0)[0 := - 1]) (replicate sz 0) = (xf, lgf, exf)"
    by (metis prod_cases3)
  have spec: "xf = gf_orbit P sz (sz - 1) \<and> length lgf = sz \<and> length exf = sz
       \<and> (\<forall>i < sz - 1. exf ! i = gf_orbit P sz i \<and> lgf ! gf_orbit P sz i = int i)"
    by (rule gf_fill_spec [OF run]) (use orb in \<open>auto simp: gf_orbit_0\<close>)
  define F where "F = \<lparr>gf_size = sz, gf_size_minus_1 = sz - 1, gf_log = lgf, gf_exp = exf\<rparr>"
  have "gf_init P = (case gf_fill P sz 0 1 ((replicate sz 0)[0 := - 1]) (replicate sz 0) of
        (x, lg, ex) \<Rightarrow>
          if x \<noteq> 1 then Inl NonPrimitive
          else Inr \<lparr>gf_size = sz, gf_size_minus_1 = sz - 1, gf_log = lg, gf_exp = ex\<rparr>)"
    unfolding gf_init_def size Let_def ..
  then have init: "gf_init P = Inr F"
    using run spec orb(1) by (simp add: F_def)
  have img: "gf_orbit P sz ` {..<sz - 1} = {1..<sz}"
  proof (rule card_subset_eq)
    show "finite {1..<sz}" by simp
    show "gf_orbit P sz ` {..<sz - 1} \<subseteq> {1..<sz}" using orb(2) by auto
    have "inj_on (gf_orbit P sz) {..<sz - 1}"
      using orb(3) by (auto simp: inj_on_def)
    then show "card (gf_orbit P sz ` {..<sz - 1}) = card {1..<sz}"
      by (simp add: card_image)
  qed
  have fwd: "\<forall>k < sz - 1. 1 \<le> exf ! k \<and> exf ! k < sz \<and> lgf ! (exf ! k) = int k"
    using spec orb(2) by simp
  have bwd: "\<forall>x. 1 \<le> x \<and> x < sz \<longrightarrow> (\<exists>k < sz - 1. exf ! k = x)"
  proof (intro allI impI)
    fix x assume "1 \<le> x \<and> x < sz"
    then have "x \<in> gf_orbit P sz ` {..<sz - 1}" using img by simp
    then obtain k where "k < sz - 1" "gf_orbit P sz k = x" by auto
    with spec show "\<exists>k < sz - 1. exf ! k = x" by auto
  qed
  have "gf_tables_ok F"
    unfolding gf_tables_ok_def F_def using sz(1) spec fwd bwd by simp
  with init show ?thesis by (auto simp: F_def)
qed

lemma gf_tables_ok_log:
  assumes "gf_tables_ok F" and "1 \<le> x" and "x < gf_size F"
  shows "0 \<le> gf_log F ! x \<and> gf_log F ! x < int (gf_size F) - 1
       \<and> gf_exp F ! nat (gf_log F ! x) = x"
proof -
  from assms obtain k where k: "k < gf_size F - 1" "gf_exp F ! k = x"
    unfolding gf_tables_ok_def by blast
  with assms(1) have "gf_log F ! x = int k" unfolding gf_tables_ok_def by blast
  with k show ?thesis by simp
qed

lemma gf_tables_ok_exp:
  assumes "gf_tables_ok F"
  shows "distinct (take (gf_size F - 1) (gf_exp F))"
    and "set (take (gf_size F - 1) (gf_exp F)) = {1..<gf_size F}"
proof -
  let ?n = "gf_size F - 1"
  from assms have len: "length (gf_exp F) = gf_size F"
    and fwd: "\<And>k. k < ?n \<Longrightarrow> 1 \<le> gf_exp F ! k \<and> gf_exp F ! k < gf_size F
                 \<and> gf_log F ! (gf_exp F ! k) = int k"
    and bwd: "\<And>x. 1 \<le> x \<Longrightarrow> x < gf_size F \<Longrightarrow> \<exists>k < ?n. gf_exp F ! k = x"
    unfolding gf_tables_ok_def by auto
  show "distinct (take ?n (gf_exp F))"
    unfolding distinct_conv_nth
  proof (intro allI impI)
    fix i j
    assume "i < length (take ?n (gf_exp F))" "j < length (take ?n (gf_exp F))" "i \<noteq> j"
    then have ij: "i < ?n" "j < ?n" "i \<noteq> j" by simp_all
    then have "gf_exp F ! i \<noteq> gf_exp F ! j"
      using fwd [of i] fwd [of j] by (metis of_nat_eq_iff)
    with ij show "take ?n (gf_exp F) ! i \<noteq> take ?n (gf_exp F) ! j" by simp
  qed
  show "set (take ?n (gf_exp F)) = {1..<gf_size F}"
  proof (intro set_eqI iffI)
    fix x assume "x \<in> set (take ?n (gf_exp F))"
    then obtain k where "k < ?n" "x = gf_exp F ! k"
      by (auto simp: in_set_conv_nth len)
    with fwd [of k] show "x \<in> {1..<gf_size F}" by simp
  next
    fix x assume "x \<in> {1..<gf_size F}"
    then obtain k where "k < ?n" "gf_exp F ! k = x" using bwd [of x] by auto
    then show "x \<in> set (take ?n (gf_exp F))"
      by (auto simp: in_set_conv_nth len intro!: exI [of _ k])
  qed
qed

lemma primitives_ok:
  assumes "1 \<le> m" and "m \<le> 10"
  shows "\<exists>F. gf_init (primitives ! m) = Inr F \<and> gf_size F = 2 ^ m \<and> gf_tables_ok F"
proof -
  have init: "\<exists>F. gf_init P = Inr F \<and> gf_size F = sz \<and> gf_tables_ok F"
    if "gf_size_loop P 1 div 2 = sz \<and> gf_orbit_chk P sz (sz - 2) (gf_next P sz 1)
        \<and> odd P \<and> 2 \<le> sz \<and> sz \<le> 2 ^ 31" for P sz
    using that gf_init_ok [of P sz] by blast
  from assms consider "m = 1" | "m = 2" | "m = 3" | "m = 4" | "m = 5"
    | "m = 6" | "m = 7" | "m = 8" | "m = 9" | "m = 10" by atomize_elim presburger
  then show ?thesis
  proof cases
    case 1
    have "\<exists>F. gf_init 0x3 = Inr F \<and> gf_size F = 2 \<and> gf_tables_ok F"
      by (rule init) (simp add: gf_size_loop.simps gf_orbit_chk.simps gf_next_def)
    with 1 show ?thesis by (simp add: primitives_def)
  next
    case 2
    have "\<exists>F. gf_init 0x7 = Inr F \<and> gf_size F = 4 \<and> gf_tables_ok F"
      by (rule init) (simp add: gf_size_loop.simps gf_orbit_chk.simps gf_next_def)
    with 2 show ?thesis by (simp add: primitives_def)
  next
    case 3
    have "\<exists>F. gf_init 0xb = Inr F \<and> gf_size F = 8 \<and> gf_tables_ok F"
      by (rule init) (simp add: gf_size_loop.simps gf_orbit_chk.simps gf_next_def)
    with 3 show ?thesis by (simp add: primitives_def)
  next
    case 4
    have "\<exists>F. gf_init 0x13 = Inr F \<and> gf_size F = 16 \<and> gf_tables_ok F"
      by (rule init) (simp add: gf_size_loop.simps gf_orbit_chk.simps gf_next_def)
    with 4 show ?thesis by (simp add: primitives_def)
  next
    case 5
    have "\<exists>F. gf_init 0x25 = Inr F \<and> gf_size F = 32 \<and> gf_tables_ok F"
      by (rule init) (simp add: gf_size_loop.simps gf_orbit_chk.simps gf_next_def)
    with 5 show ?thesis by (simp add: primitives_def)
  next
    case 6
    have "\<exists>F. gf_init 0x43 = Inr F \<and> gf_size F = 64 \<and> gf_tables_ok F"
      by (rule init) (simp add: gf_size_loop.simps gf_orbit_chk.simps gf_next_def)
    with 6 show ?thesis by (simp add: primitives_def)
  next
    case 7
    have "\<exists>F. gf_init 0x89 = Inr F \<and> gf_size F = 128 \<and> gf_tables_ok F"
      by (rule init) (simp add: gf_size_loop.simps gf_orbit_chk.simps gf_next_def)
    with 7 show ?thesis by (simp add: primitives_def)
  next
    case 8
    have "\<exists>F. gf_init 0x11d = Inr F \<and> gf_size F = 256 \<and> gf_tables_ok F"
      by (rule init) (simp add: gf_size_loop.simps gf_orbit_chk.simps gf_next_def)
    with 8 show ?thesis by (simp add: primitives_def)
  next
    case 9
    have "\<exists>F. gf_init 0x221 = Inr F \<and> gf_size F = 512 \<and> gf_tables_ok F"
      by (rule init) (simp add: gf_size_loop.simps gf_orbit_chk.simps gf_next_def)
    with 9 show ?thesis by (simp add: primitives_def)
  next
    case 10
    have "\<exists>F. gf_init 0x409 = Inr F \<and> gf_size F = 1024 \<and> gf_tables_ok F"
      by (rule init) (simp add: gf_size_loop.simps gf_orbit_chk.simps gf_next_def)
    with 10 show ?thesis by (simp add: primitives_def)
  qed
qed

text \<open>
  Claim C6. For every primitive polynomial of the built-in table (degree \<open>m\<close> from 1
  to 10), \<open>gf_init\<close> succeeds with \<open>q = 2^m\<close>; the first \<open>q - 1\<close> entries of \<open>gf_exp\<close>
  are pairwise distinct and are exactly the nonzero elements \<open>[1, q)\<close>;
  \<open>gf_exp[gf_log[x]] = x\<close> for every \<open>x\<close> in \<open>[1, q)\<close> and \<open>gf_log[gf_exp[k]] = k\<close> for
  every \<open>k\<close> in \<open>[0, q - 1)\<close>.
\<close>

theorem gf_init_tables:
  assumes "1 \<le> m" and "m \<le> 10"
  shows "\<exists>F. gf_init (primitives ! m) = Inr F \<and> gf_size F = 2 ^ m
           \<and> gf_size_minus_1 F = 2 ^ m - 1
           \<and> distinct (take (2 ^ m - 1) (gf_exp F))
           \<and> set (take (2 ^ m - 1) (gf_exp F)) = {1..<2 ^ m}
           \<and> (\<forall>x \<in> {1..<2 ^ m}. 0 \<le> gf_log F ! x \<and> gf_exp F ! nat (gf_log F ! x) = x)
           \<and> (\<forall>k < 2 ^ m - 1. gf_log F ! (gf_exp F ! k) = int k)"
proof -
  from primitives_ok [OF assms] obtain F
    where F: "gf_init (primitives ! m) = Inr F" "gf_size F = 2 ^ m" "gf_tables_ok F" by blast
  from F(3) have "gf_size_minus_1 F = gf_size F - 1"
    and "\<forall>k < gf_size F - 1. gf_log F ! (gf_exp F ! k) = int k"
    unfolding gf_tables_ok_def by auto
  moreover have "\<forall>x \<in> {1..<gf_size F}. 0 \<le> gf_log F ! x \<and> gf_exp F ! nat (gf_log F ! x) = x"
    using gf_tables_ok_log [OF F(3)] by auto
  ultimately show ?thesis
    using F gf_tables_ok_exp [OF F(3)] by (intro exI [of _ F]) (simp add: F(2))
qed

theorem gf_init_tables_witness:
  "gf_init (primitives ! 2)
     = Inr \<lparr>gf_size = 4, gf_size_minus_1 = 3, gf_log = [- 1, 0, 1, 2], gf_exp = [1, 2, 3, 0]\<rparr>
   \<and> (\<exists>F. gf_init (primitives ! 2) = Inr F \<and> gf_size F = 4
         \<and> distinct (take 3 (gf_exp F)) \<and> set (take 3 (gf_exp F)) = {1..<4})"
proof -
  have "gf_init (primitives ! 2)
     = Inr \<lparr>gf_size = 4, gf_size_minus_1 = 3, gf_log = [- 1, 0, 1, 2], gf_exp = [1, 2, 3, 0]\<rparr>"
    by (simp add: primitives_def gf_init_def gf_size_loop.simps gf_fill.simps gf_next_def
        eval_list)
  moreover from gf_init_tables [of 2]
  have "\<exists>F. gf_init (primitives ! 2) = Inr F \<and> gf_size F = 4
         \<and> distinct (take 3 (gf_exp F)) \<and> set (take 3 (gf_exp F)) = {1..<4}"
    by auto
  ultimately show ?thesis by blast
qed

section \<open>The coset enumerator\<close>

lemma cw_begin_eq: "cw_begin n = replicate n 0"
proof -
  have r: "(replicate n (0::nat))[k := 0] = replicate n 0" for k
    by (induction n arbitrary: k) (simp_all split: nat.split)
  have "fold (\<lambda>i x. x[i := 0]) [0..<k] (replicate n 0) = replicate n (0::nat)" for k
    by (induction k) (simp_all add: r)
  then show ?thesis by (simp add: cw_begin_def)
qed

lemma cw_carry_spec:
  assumes "cw_carry qm1 n x i0 = (i, x1)" and "i0 \<le> n - 1" and "length x = n"
  shows "i0 \<le> i \<and> i \<le> n - 1 \<and> length x1 = n
       \<and> (\<forall>k. i0 \<le> k \<and> k < i \<longrightarrow> x ! k = qm1)
       \<and> (\<forall>k < n. x1 ! k = (if i0 \<le> k \<and> k < i then 0 else x ! k))
       \<and> (i < n - 1 \<longrightarrow> x ! i \<noteq> qm1)"
  using assms
proof (induction qm1 n x i0 rule: cw_carry.induct)
  case (1 qm1 n x i0)
  show ?case
  proof (cases "i0 < n - 1 \<and> x ! i0 = qm1")
    case True
    with "1.prems"(1) have run: "cw_carry qm1 n (x[i0 := 0]) (i0 + 1) = (i, x1)"
      by (simp add: cw_carry.simps [of qm1 n x i0])
    from True have t1: "i0 < n - 1" and t2: "x ! i0 = qm1" by simp_all
    have l: "length (x[i0 := 0]) = n" using "1.prems"(3) by simp
    from t1 have le: "i0 + 1 \<le> n - 1" by simp
    note IH = "1.IH" [OF t1 t2 run le l]
    from IH have ih1: "i0 + 1 \<le> i" by (rule conjunct1)
    from IH have ih2: "i \<le> n - 1" by (rule conjunct1 [OF conjunct2])
    from IH have ih3: "length x1 = n" by (rule conjunct1 [OF conjunct2 [OF conjunct2]])
    from IH have ih4: "\<forall>k. i0 + 1 \<le> k \<and> k < i \<longrightarrow> (x[i0 := 0]) ! k = qm1"
      by (rule conjunct1 [OF conjunct2 [OF conjunct2 [OF conjunct2]]])
    from IH have ih5: "\<forall>k < n. x1 ! k = (if i0 + 1 \<le> k \<and> k < i then 0 else (x[i0 := 0]) ! k)"
      by (rule conjunct1 [OF conjunct2 [OF conjunct2 [OF conjunct2 [OF conjunct2]]]])
    from IH have ih6: "i < n - 1 \<longrightarrow> (x[i0 := 0]) ! i \<noteq> qm1"
      by (rule conjunct2 [OF conjunct2 [OF conjunct2 [OF conjunct2 [OF conjunct2]]]])
    have a: "\<forall>k. i0 \<le> k \<and> k < i \<longrightarrow> x ! k = qm1"
    proof (intro allI impI)
      fix k assume k: "i0 \<le> k \<and> k < i"
      show "x ! k = qm1"
      proof (cases "k = i0")
        case True
        with t2 show ?thesis by simp
      next
        case False
        with k have "i0 + 1 \<le> k \<and> k < i" by simp
        with ih4 have "(x[i0 := 0]) ! k = qm1" by blast
        with False show ?thesis by simp
      qed
    qed
    have b: "\<forall>k < n. x1 ! k = (if i0 \<le> k \<and> k < i then 0 else x ! k)"
    proof (intro allI impI)
      fix k assume k: "k < n"
      with ih5 have e: "x1 ! k = (if i0 + 1 \<le> k \<and> k < i then 0 else (x[i0 := 0]) ! k)"
        by blast
      show "x1 ! k = (if i0 \<le> k \<and> k < i then 0 else x ! k)"
      proof (cases "k = i0")
        case True
        with e k ih1 "1.prems"(3) show ?thesis by simp
      next
        case False
        then have "(i0 + 1 \<le> k) = (i0 \<le> k)" and "(x[i0 := 0]) ! k = x ! k" by auto
        with e show ?thesis by simp
      qed
    qed
    from ih1 have "i \<noteq> i0" by simp
    with ih6 have c: "i < n - 1 \<longrightarrow> x ! i \<noteq> qm1" by simp
    from ih1 have "i0 \<le> i" by simp
    with ih2 ih3 a b c show ?thesis by blast
  next
    case False
    with "1.prems"(1) have "i = i0 \<and> x1 = x"
      by (simp add: cw_carry.simps [of qm1 n x i0] split: if_splits)
    with False "1.prems"(2) "1.prems"(3) show ?thesis by auto
  qed
qed

lemma cw_next_None:
  assumes "cw_next F n h x = None" and "length x = n"
  shows "\<forall>k < n - 1. x ! k = gf_size_minus_1 F"
proof -
  obtain i x1 where c: "cw_carry (gf_size_minus_1 F) n x 0 = (i, x1)" by force
  with assms(1) have "i = n - 1" by (simp add: cw_next_def split: if_splits)
  with cw_carry_spec [OF c _ assms(2)] show ?thesis by simp
qed

lemma cw_next_Some:
  assumes "cw_next F n h x = Some x'" and "length x = n" and "1 \<le> n"
  obtains i where "i < n - 1" and "\<forall>k < i. x ! k = gf_size_minus_1 F"
    and "x ! i \<noteq> gf_size_minus_1 F" and "length x' = n"
    and "\<forall>k < n - 1. x' ! k = (if k < i then 0 else if k = i then x ! i + 1 else x ! k)"
    and "x' ! (n - 1) = fold (\<lambda>k acc. gf_accmul F acc (h ! k) (x' ! k)) [0..<n - 1] 0"
proof -
  obtain i x1 where c: "cw_carry (gf_size_minus_1 F) n x 0 = (i, x1)" by force
  from cw_carry_spec [OF c _ assms(2)]
  have s: "i \<le> n - 1" "length x1 = n" "\<forall>k. k < i \<longrightarrow> x ! k = gf_size_minus_1 F"
    "\<forall>k < n. x1 ! k = (if k < i then 0 else x ! k)" "i < n - 1 \<longrightarrow> x ! i \<noteq> gf_size_minus_1 F"
    by simp_all
  define x2 where "x2 = x1[i := x1 ! i + 1]"
  from c assms(1) have i: "i \<noteq> n - 1"
    and x': "x' = x2[n - 1 := fold (\<lambda>k acc. gf_accmul F acc (h ! k) (x2 ! k)) [0..<n - 1] 0]"
    by (simp_all add: cw_next_def x2_def split: if_splits)
  from i s(1) have lt: "i < n - 1" by simp
  have len: "length x' = n" using s(2) by (simp add: x' x2_def)
  have low: "\<forall>k < n - 1. x' ! k = x2 ! k" by (simp add: x')
  have dig: "\<forall>k < n - 1. x' ! k = (if k < i then 0 else if k = i then x ! i + 1 else x ! k)"
  proof (intro allI impI)
    fix k assume k: "k < n - 1"
    then have "k < n" by simp
    with s(2,4) lt k show "x' ! k = (if k < i then 0 else if k = i then x ! i + 1 else x ! k)"
      by (simp add: x' x2_def nth_list_update)
  qed
  have "x' ! (n - 1) = fold (\<lambda>k acc. gf_accmul F acc (h ! k) (x2 ! k)) [0..<n - 1] 0"
    using assms(3) s(2) by (simp add: x' x2_def)
  also have "\<dots> = fold (\<lambda>k acc. gf_accmul F acc (h ! k) (x' ! k)) [0..<n - 1] 0"
    by (rule fold_cong) (simp_all add: low)
  finally have last: "x' ! (n - 1) = fold (\<lambda>k acc. gf_accmul F acc (h ! k) (x' ! k)) [0..<n - 1] 0" .
  from lt s(3,5) len dig last show ?thesis by (intro that [of i]) simp_all
qed

lemma geo_sum: "(\<Sum>k < i. qm1 * Suc qm1 ^ k) + 1 = Suc qm1 ^ i"
  by (induction i) (simp_all add: algebra_simps)

lemma digits_bound: "\<forall>k < m. f k \<le> qm1 \<Longrightarrow> (\<Sum>k < m. f k * Suc qm1 ^ k) < Suc qm1 ^ m"
proof (induction m)
  case 0
  then show ?case by simp
next
  case (Suc m)
  then have "(\<Sum>k < m. f k * Suc qm1 ^ k) < Suc qm1 ^ m" by simp
  moreover from Suc.prems have "f m * Suc qm1 ^ m \<le> qm1 * Suc qm1 ^ m" by simp
  ultimately have "(\<Sum>k < m. f k * Suc qm1 ^ k) + f m * Suc qm1 ^ m
      < Suc qm1 ^ m + qm1 * Suc qm1 ^ m" by (rule add_less_le_mono)
  then show ?case by simp
qed

lemma odometer_sum:
  assumes "i < m" and "\<forall>k < i. f k = qm1"
    and "\<forall>k < m. g k = (if k < i then 0 else if k = i then f i + 1 else f k)"
  shows "(\<Sum>k < m. g k * Suc qm1 ^ k) = (\<Sum>k < m. f k * Suc qm1 ^ k) + 1"
  using assms
proof (induction m)
  case 0
  then show ?case by simp
next
  case (Suc m)
  show ?case
  proof (cases "i = m")
    case True
    with Suc.prems have "(\<Sum>k < m. g k * Suc qm1 ^ k) = 0" by simp
    moreover from True Suc.prems have "(\<Sum>k < m. f k * Suc qm1 ^ k) = (\<Sum>k < m. qm1 * Suc qm1 ^ k)"
      by simp
    moreover from True Suc.prems have "g m = f m + 1" by simp
    ultimately show ?thesis using geo_sum [where i = m and ?qm1.0 = qm1] by (simp add: algebra_simps)
  next
    case False
    with Suc.prems have "i < m" by simp
    with Suc have "(\<Sum>k < m. g k * Suc qm1 ^ k) = (\<Sum>k < m. f k * Suc qm1 ^ k) + 1" by simp
    moreover from \<open>i < m\<close> Suc.prems have "g m = f m" by simp
    ultimately show ?thesis by simp
  qed
qed

lemma cw_all_from:
  assumes "1 \<le> n" and "gf_size_minus_1 F = qm1"
    and "length x = n" and "\<forall>k < n - 1. x ! k \<le> qm1"
  shows "\<exists>xs. cw_all F n h x = Some xs
           \<and> length xs = Suc qm1 ^ (n - 1) - cw_val (Suc qm1) (n - 1) x
           \<and> distinct xs
           \<and> (\<forall>y \<in> set xs. length y = n \<and> cw_val (Suc qm1) (n - 1) x \<le> cw_val (Suc qm1) (n - 1) y)"
  using assms(3,4)
proof (induction "Suc qm1 ^ (n - 1) - cw_val (Suc qm1) (n - 1) x" arbitrary: x rule: less_induct)
  case less
  let ?q = "Suc qm1" and ?m = "n - 1"
  have bound: "cw_val ?q ?m x < ?q ^ ?m"
    unfolding cw_val_def using less.prems(2) by (rule digits_bound)
  show ?case
  proof (cases "cw_next F n h x")
    case None
    from cw_next_None [OF None less.prems(1)] assms(2)
    have "cw_val ?q ?m x = (\<Sum>k < ?m. qm1 * ?q ^ k)" by (simp add: cw_val_def)
    with geo_sum [where i = ?m and ?qm1.0 = qm1] have "cw_val ?q ?m x + 1 = ?q ^ ?m" by simp
    then have "?q ^ ?m - cw_val ?q ?m x = 1" by simp
    moreover from None have "cw_all F n h x = Some [x]"
      by (subst cw_all.simps) simp
    ultimately show ?thesis using less.prems(1) by simp
  next
    case (Some x')
    from Some less.prems(1) assms(1) obtain i where i: "i < ?m"
      "\<forall>k < i. x ! k = gf_size_minus_1 F" "x ! i \<noteq> gf_size_minus_1 F" "length x' = n"
      "\<forall>k < ?m. x' ! k = (if k < i then 0 else if k = i then x ! i + 1 else x ! k)"
      by (rule cw_next_Some)
    have val: "cw_val ?q ?m x' = cw_val ?q ?m x + 1"
      unfolding cw_val_def
      by (rule odometer_sum [OF i(1)]) (use i(2,5) assms(2) in simp_all)
    have dig: "\<forall>k < ?m. x' ! k \<le> qm1"
    proof (intro allI impI)
      fix k assume k: "k < ?m"
      from i(3) assms(2) less.prems(2) i(1) have "x ! i + 1 \<le> qm1" by (simp add: le_neq_implies_less Suc_le_eq)
      with k i(5) less.prems(2) show "x' ! k \<le> qm1" by simp
    qed
    have bound': "cw_val ?q ?m x' < ?q ^ ?m"
      unfolding cw_val_def using dig by (rule digits_bound)
    from val bound' have "?q ^ ?m - cw_val ?q ?m x' < ?q ^ ?m - cw_val ?q ?m x" by arith
    from less.hyps [OF this i(4) dig] obtain xs
      where xs: "cw_all F n h x' = Some xs"
        "length xs = ?q ^ ?m - cw_val ?q ?m x'" "distinct xs"
        "\<forall>y \<in> set xs. length y = n \<and> cw_val ?q ?m x' \<le> cw_val ?q ?m y"
      by blast
    from Some xs(1) have all: "cw_all F n h x = Some (x # xs)"
      by (subst cw_all.simps) simp
    have notin: "x \<notin> set xs"
    proof
      assume "x \<in> set xs"
      with xs(4) have "cw_val ?q ?m x' \<le> cw_val ?q ?m x" by blast
      with val show False by simp
    qed
    have len: "length (x # xs) = ?q ^ ?m - cw_val ?q ?m x"
      using xs(2) val bound' by (simp del: power_Suc) arith
    have ge: "\<forall>y \<in> set (x # xs). length y = n \<and> cw_val ?q ?m x \<le> cw_val ?q ?m y"
      using xs(4) val less.prems(1) by auto
    from all len notin xs(3) ge show ?thesis by (intro exI [of _ "x # xs"]) simp
  qed
qed

text \<open>
  Claim C3. For a field with \<open>q\<close> elements and any parity \<open>h\<close> of length \<open>n \<ge> 1\<close>,
  \<open>cw_begin\<close> followed by \<open>cw_next\<close> until it returns false terminates and
  enumerates exactly \<open>q^(n-1)\<close> codewords, pairwise distinct.
\<close>

theorem cw_all_count:
  assumes "1 \<le> n" and "1 \<le> gf_size F" and "gf_size_minus_1 F = gf_size F - 1"
  shows "\<exists>xs. cw_all F n h (cw_begin n) = Some xs
           \<and> length xs = gf_size F ^ (n - 1) \<and> distinct xs"
proof -
  from assms have q: "Suc (gf_size_minus_1 F) = gf_size F" by simp
  have "cw_val (gf_size F) (n - 1) (replicate n 0) = 0"
    by (simp add: cw_val_def)
  with cw_all_from [of n F "gf_size_minus_1 F" "replicate n 0" h] assms(1) q
  show ?thesis by (auto simp: cw_begin_eq)
qed

theorem cw_all_count_witness:
  "\<exists>xs. cw_all \<lparr>gf_size = 4, gf_size_minus_1 = 3, gf_log = [- 1, 0, 1, 2], gf_exp = [1, 2, 3, 0]\<rparr>
            3 [2, 1, 0] (cw_begin 3) = Some xs
        \<and> length xs = 16 \<and> distinct xs"
  using cw_all_count [of 3
      "\<lparr>gf_size = 4, gf_size_minus_1 = 3, gf_log = [- 1, 0, 1, 2], gf_exp = [1, 2, 3, 0]\<rparr>"
      "[2, 1, 0]"]
  by simp

section \<open>Codewords satisfy the parity\<close>

lemma fold_accmul_zero:
  "\<forall>i \<in> set js. x ! i = 0 \<Longrightarrow> fold (\<lambda>i acc. gf_accmul F acc (h ! i) (x ! i)) js a = a"
  by (induction js arbitrary: a) (simp_all add: gf_accmul_def)

lemma xor_less_pow2:
  fixes a b :: nat
  assumes "a < 2 ^ m" and "b < 2 ^ m"
  shows "a XOR b < 2 ^ m"
proof -
  from assms have "take_bit m a = a" "take_bit m b = b"
    by (simp_all add: take_bit_nat_eq_self)
  then have "take_bit m (a XOR b) = a XOR b" by simp
  then show ?thesis by (metis take_bit_nat_less_exp)
qed

lemma gf_accmul_less:
  assumes "gf_tables_ok F" and "gf_size F = 2 ^ m" and "a < 2 ^ m"
  shows "gf_accmul F a hl v < 2 ^ m"
proof (cases "v = 0")
  case True
  with assms(3) show ?thesis by (simp add: gf_accmul_def)
next
  case False
  let ?k = "nat (int hl + gf_log F ! v) mod gf_size_minus_1 F"
  from assms(1) have "0 < gf_size_minus_1 F" unfolding gf_tables_ok_def by simp
  then have "?k < gf_size_minus_1 F" by simp
  with assms(1) have "gf_exp F ! ?k < gf_size F" unfolding gf_tables_ok_def by simp
  with assms(2,3) False show ?thesis by (simp add: gf_accmul_def xor_less_pow2)
qed

lemma fold_accmul_less:
  assumes "gf_tables_ok F" and "gf_size F = 2 ^ m"
  shows "a < 2 ^ m \<Longrightarrow> fold (\<lambda>i acc. gf_accmul F acc (h ! i) (x ! i)) js a < 2 ^ m"
  by (induction js arbitrary: a) (simp_all add: gf_accmul_less [OF assms])

lemma cw_reach_valid:
  assumes "cw_reach F n h x" and "1 \<le> n"
  shows "length x = n \<and> chk_valid F n h x"
  using assms(1)
proof (induction rule: cw_reach.induct)
  case cw_reach_begin
  have "fold (\<lambda>i acc. gf_accmul F acc (h ! i) (replicate n 0 ! i)) [0..<n - 1] 0 = 0"
    by (rule fold_accmul_zero) simp
  with assms(2) show ?case by (simp add: cw_begin_eq chk_valid_def)
next
  case (cw_reach_next x x')
  then have len: "length x = n" by simp
  from cw_reach_next(2) len assms(2) show ?case
    by (rule cw_next_Some) (simp add: chk_valid_def)
qed

lemma cw_reach_last_less:
  assumes "cw_reach F n h x" and "1 \<le> n" and "gf_tables_ok F" and "gf_size F = 2 ^ m"
  shows "x ! (n - 1) < gf_size F"
proof -
  from cw_reach_valid [OF assms(1,2)]
  have "x ! (n - 1) = fold (\<lambda>i acc. gf_accmul F acc (h ! i) (x ! i)) [0..<n - 1] 0"
    by (simp add: chk_valid_def)
  also have "\<dots> < 2 ^ m" by (rule fold_accmul_less [OF assms(3,4)]) simp
  finally show ?thesis by (simp add: assms(4))
qed

lemma chk_sum_zero:
  assumes "gf_tables_ok F" and "chk_valid F n h x" and "1 \<le> n"
    and "h ! (n - 1) = 0" and "x ! (n - 1) < gf_size F"
  shows "chk_sum F n h x = 0"
proof -
  let ?v = "x ! (n - 1)"
  from assms(3) have "[0..<n] = [0..<n - 1] @ [n - 1]"
    by (metis Suc_diff_1 Suc_le_lessD One_nat_def upt_Suc_append zero_le)
  then have "chk_sum F n h x
      = gf_accmul F (fold (\<lambda>i acc. gf_accmul F acc (h ! i) (x ! i)) [0..<n - 1] 0) (h ! (n - 1)) ?v"
    by (simp add: chk_sum_def)
  also from assms(2,4) have "\<dots> = gf_accmul F ?v 0 ?v" by (simp add: chk_valid_def)
  also have "\<dots> = 0"
  proof (cases "?v = 0")
    case True
    then show ?thesis by (simp add: gf_accmul_def)
  next
    case False
    with assms(5) gf_tables_ok_log [OF assms(1), of ?v]
    have l: "0 \<le> gf_log F ! ?v" "gf_log F ! ?v < int (gf_size F) - 1"
      "gf_exp F ! nat (gf_log F ! ?v) = ?v" by simp_all
    from assms(1) have "gf_size_minus_1 F = gf_size F - 1" unfolding gf_tables_ok_def by simp
    with l(1,2) have "nat (gf_log F ! ?v) mod gf_size_minus_1 F = nat (gf_log F ! ?v)" by simp
    with False l(3) show ?thesis by (simp add: gf_accmul_def)
  qed
  finally show ?thesis .
qed

text \<open>
  Claim C2. Let \<open>F\<close> be the field built by \<open>gf_init\<close> from a polynomial of the table,
  \<open>h\<close> a parity of length \<open>n\<close> whose last exponent is 0, and \<open>x\<close> a codeword produced
  by \<open>cw_begin\<close> followed by any number of calls of \<open>cw_next\<close> that returned true. Then
  \<open>chk_valid(n, h, x)\<close> is true, and the whole sum \<open>\<Sum> \<alpha>^(h_i) \<cdot> x_i\<close> over the \<open>n\<close>
  coordinates is zero.
\<close>

theorem cw_reach_chk_valid:
  assumes "1 \<le> m" and "m \<le> 10" and "gf_init (primitives ! m) = Inr F"
    and "1 \<le> n" and "length h = n" and "h ! (n - 1) = 0"
    and "cw_reach F n h x"
  shows "chk_valid F n h x \<and> chk_sum F n h x = 0"
proof -
  from primitives_ok [OF assms(1,2)] assms(3)
  have ok: "gf_tables_ok F" and sz: "gf_size F = 2 ^ m" by auto
  from cw_reach_valid [OF assms(7,4)] have v: "chk_valid F n h x" by simp
  from cw_reach_last_less [OF assms(7,4) ok sz] have "x ! (n - 1) < gf_size F" .
  from chk_sum_zero [OF ok v assms(4,6) this] v show ?thesis by simp
qed

lemma gf4_init:
  "gf_init (primitives ! 2)
     = Inr \<lparr>gf_size = 4, gf_size_minus_1 = 3, gf_log = [- 1, 0, 1, 2], gf_exp = [1, 2, 3, 0]\<rparr>"
  by (simp add: primitives_def gf_init_def gf_size_loop.simps gf_fill.simps gf_next_def eval_list)

lemma gf4_cw_next:
  "cw_next \<lparr>gf_size = 4, gf_size_minus_1 = 3, gf_log = [- 1, 0, 1, 2], gf_exp = [1, 2, 3, 0]\<rparr>
     3 [2, 1, 0] (cw_begin 3) = Some [1, 0, 3]"
  by (simp add: cw_begin_eq cw_next_def cw_carry.simps gf_accmul_def eval_list upt_rec)

theorem cw_reach_chk_valid_witness:
  "chk_valid \<lparr>gf_size = 4, gf_size_minus_1 = 3, gf_log = [- 1, 0, 1, 2], gf_exp = [1, 2, 3, 0]\<rparr>
     3 [2, 1, 0] [1, 0, 3]
   \<and> chk_sum \<lparr>gf_size = 4, gf_size_minus_1 = 3, gf_log = [- 1, 0, 1, 2], gf_exp = [1, 2, 3, 0]\<rparr>
     3 [2, 1, 0] [1, 0, 3] = 0"
proof -
  let ?F = "\<lparr>gf_size = 4, gf_size_minus_1 = 3, gf_log = [- 1, 0, 1, 2], gf_exp = [1, 2, 3, 0]\<rparr>"
  have "cw_reach ?F 3 [2, 1, 0] [1, 0, 3]"
    by (rule cw_reach_next [OF cw_reach_begin gf4_cw_next])
  with cw_reach_chk_valid [of 2 ?F 3 "[2, 1, 0]" "[1, 0, 3]"] gf4_init
  show ?thesis by simp
qed

section \<open>The parity enumerator\<close>

lemma fold_update_nth:
  "j \<le> length xs \<Longrightarrow>
   length (fold (\<lambda>i h. h[i := f i]) [0..<j] xs) = length xs
   \<and> (\<forall>k < length xs. fold (\<lambda>i h. h[i := f i]) [0..<j] xs ! k = (if k < j then f k else xs ! k))"
proof (induction j)
  case 0
  then show ?case by simp
next
  case (Suc j)
  then show ?case by (auto simp: nth_list_update less_Suc_eq)
qed

lemma chk_begin_nth:
  assumes "1 \<le> n"
  shows "length (chk_begin n) = n" and "k < n \<Longrightarrow> chk_begin n ! k = n - 1 - k"
proof -
  let ?h = "fold (\<lambda>i h. h[i := n - i - 1]) [0..<n - 1] (replicate n 0)"
  from fold_update_nth [of "n - 1" "replicate n 0" "\<lambda>i. n - i - 1"]
  have len: "length ?h = n"
    and nth: "\<forall>k < n. ?h ! k = (if k < n - 1 then n - k - 1 else replicate n 0 ! k)"
    by simp_all
  from len show "length (chk_begin n) = n" by (simp add: chk_begin_def)
  show "chk_begin n ! k = n - 1 - k" if "k < n"
  proof (cases "k = n - 1")
    case True
    with that len show ?thesis by (simp add: chk_begin_def)
  next
    case False
    with that have "k < n - 1" by simp
    with that nth False show ?thesis by (simp add: chk_begin_def)
  qed
qed

lemma size_sub_simp: "k + 1 \<le> qm1 \<Longrightarrow> size_sub (size_sub qm1 k) 1 = qm1 - k - 1"
  by (simp add: size_sub_def)

lemma chk_scan_spec:
  assumes "i0 + 2 \<le> n" and "n \<le> qm1"
  shows "case chk_scan qm1 n h i0 of
           None \<Rightarrow> (\<forall>k. i0 \<le> k \<and> k + 2 \<le> n \<longrightarrow> qm1 - k - 1 \<le> h ! k)
         | Some i \<Rightarrow> i0 \<le> i \<and> i + 2 \<le> n \<and> h ! i < qm1 - i - 1
                    \<and> (\<forall>k. i0 \<le> k \<and> k < i \<longrightarrow> qm1 - k - 1 \<le> h ! k)"
  using assms
proof (induction qm1 n h i0 rule: chk_scan.induct)
  case (1 qm1 n h i)
  from "1.prems" have sub: "size_sub (size_sub qm1 i) 1 = qm1 - i - 1"
    by (intro size_sub_simp) simp
  show ?case
  proof (cases "qm1 - i - 1 \<le> h ! i")
    case False
    with sub have "chk_scan qm1 n h i = Some i"
      by (simp add: chk_scan.simps [of qm1 n h i])
    with False "1.prems" show ?thesis by simp
  next
    case ge: True
    show ?thesis
    proof (cases "i + 3 > n")
      case True
      with ge sub have "chk_scan qm1 n h i = None"
        by (simp add: chk_scan.simps [of qm1 n h i])
      moreover have "qm1 - k - 1 \<le> h ! k" if "i \<le> k \<and> k + 2 \<le> n" for k
      proof -
        from that True have "k = i" by simp
        with ge show ?thesis by simp
      qed
      ultimately show ?thesis by simp
    next
      case False
      with ge sub have run: "chk_scan qm1 n h i = chk_scan qm1 n h (i + 1)"
        by (simp add: chk_scan.simps [of qm1 n h i])
      from False have le: "i + 1 + 2 \<le> n" by simp
      have ge': "size_sub (size_sub qm1 i) 1 \<le> h ! i" using ge sub by simp
      note IH = "1.IH" [OF ge' False le "1.prems"(2)]
      show ?thesis
      proof (cases "chk_scan qm1 n h (i + 1)")
        case None
        with IH have a: "\<forall>k. i + 1 \<le> k \<and> k + 2 \<le> n \<longrightarrow> qm1 - k - 1 \<le> h ! k" by simp
        have "qm1 - k - 1 \<le> h ! k" if "i \<le> k \<and> k + 2 \<le> n" for k
        proof (cases "k = i")
          case True
          with ge show ?thesis by simp
        next
          case False
          with that have "i + 1 \<le> k \<and> k + 2 \<le> n" by simp
          with a show ?thesis by blast
        qed
        with None run show ?thesis by simp
      next
        case (Some j)
        with IH have j: "i + 1 \<le> j" "j + 2 \<le> n" "h ! j < qm1 - j - 1"
          and a: "\<forall>k. i + 1 \<le> k \<and> k < j \<longrightarrow> qm1 - k - 1 \<le> h ! k" by simp_all
        have "qm1 - k - 1 \<le> h ! k" if "i \<le> k \<and> k < j" for k
        proof (cases "k = i")
          case True
          with ge show ?thesis by simp
        next
          case False
          with that have "i + 1 \<le> k \<and> k < j" by simp
          with a show ?thesis by blast
        qed
        with Some run j show ?thesis by simp
      qed
    qed
  qed
qed

lemma chk_reset_spec:
  "i < length h \<Longrightarrow>
   length (chk_reset h i) = length h
   \<and> (\<forall>k < length h. chk_reset h i ! k = (if k < i then h ! i + (i - k) else h ! k))"
proof (induction h i rule: chk_reset.induct)
  case (1 h i)
  show ?case
  proof (cases "i = 0")
    case True
    then show ?thesis by (simp add: chk_reset.simps [of h 0])
  next
    case False
    let ?h = "h[i - 1 := h ! i + 1]"
    from False "1.prems" have lt: "i - 1 < length ?h" by simp
    from "1.IH" [OF False lt]
    have len: "length (chk_reset ?h (i - 1)) = length h"
      and nth: "\<forall>k < length h. chk_reset ?h (i - 1) ! k
                  = (if k < i - 1 then ?h ! (i - 1) + (i - 1 - k) else ?h ! k)"
      by simp_all
    from False have run: "chk_reset h i = chk_reset ?h (i - 1)"
      by (simp add: chk_reset.simps [of h i])
    have "chk_reset ?h (i - 1) ! k = (if k < i then h ! i + (i - k) else h ! k)"
      if k: "k < length h" for k
    proof -
      from nth k have e: "chk_reset ?h (i - 1) ! k
          = (if k < i - 1 then ?h ! (i - 1) + (i - 1 - k) else ?h ! k)" by blast
      from False "1.prems" have top: "?h ! (i - 1) = h ! i + 1" by simp
      consider "k < i - 1" | "k = i - 1" | "i \<le> k" using False by linarith
      then show ?thesis
      proof cases
        case 1
        then have "k < i" and "h ! i + 1 + (i - 1 - k) = h ! i + (i - k)" by linarith+
        with e top 1 show ?thesis by simp
      next
        case 2
        with False have "k < i" and "\<not> k < i - 1" and "h ! i + 1 = h ! i + (i - k)" by linarith+
        with e top 2 show ?thesis by simp
      next
        case 3
        then have "\<not> k < i" and "\<not> k < i - 1" and "k \<noteq> i - 1" using False by linarith+
        with e show ?thesis by simp
      qed
    qed
    with len run show ?thesis by simp
  qed
qed




lemma chk_begin_strict:
  assumes "2 \<le> n" and "n \<le> qm1"
  shows "chk_strict (Suc qm1) n (chk_begin n)"
proof -
  from assms(1) have n1: "1 \<le> n" by simp
  note nth = chk_begin_nth(2) [OF n1]
  have "chk_begin n ! (n - 1) = 0" using nth [of "n - 1"] assms(1) by simp
  moreover have "\<forall>i. i + 1 < n \<longrightarrow> chk_begin n ! (i + 1) < chk_begin n ! i"
  proof (intro allI impI)
    fix i assume i: "i + 1 < n"
    then have "i < n" by simp
    from nth [OF i] nth [OF this] i show "chk_begin n ! (i + 1) < chk_begin n ! i" by linarith
  qed
  moreover have "chk_begin n ! 0 \<le> Suc qm1 - 2"
    using nth [of 0] assms by simp
  ultimately show ?thesis using chk_begin_nth(1) [OF n1] by (simp add: chk_strict_def)
qed


lemma chk_next_Some:
  assumes "chk_next qm1 n h = Some h'" and "2 \<le> n" and "n \<le> qm1" and "length h = n"
  obtains i where "i + 2 \<le> n" and "h ! i < qm1 - i - 1"
    and "\<forall>k < i. qm1 - k - 1 \<le> h ! k" and "length h' = n"
    and "\<forall>k < n. h' ! k = (if k < i then h ! i + 1 + (i - k) else if k = i then h ! i + 1 else h ! k)"
proof -
  from assms(1) obtain i where sc: "chk_scan qm1 n h 0 = Some i"
    and h': "h' = chk_reset (h[i := h ! i + 1]) i"
    by (auto simp: chk_next_def split: option.splits)
  from chk_scan_spec [of 0 n qm1 h] assms(2,3) sc
  have i: "i + 2 \<le> n" "h ! i < qm1 - i - 1" "\<forall>k < i. qm1 - k - 1 \<le> h ! k" by simp_all
  let ?g = "h[i := h ! i + 1]"
  from i(1) assms(4) have lt: "i < length ?g" by simp
  from chk_reset_spec [OF lt] assms(4)
  have len: "length h' = n"
    and nth: "\<forall>k < n. h' ! k = (if k < i then ?g ! i + (i - k) else ?g ! k)"
    by (simp_all add: h')
  have "h' ! k = (if k < i then h ! i + 1 + (i - k) else if k = i then h ! i + 1 else h ! k)"
    if "k < n" for k
  proof -
    from nth that have "h' ! k = (if k < i then ?g ! i + (i - k) else ?g ! k)" by blast
    with i(1) assms(4) that show ?thesis by (simp add: nth_list_update)
  qed
  with i len show ?thesis by (intro that [of i]) simp_all
qed

lemma chk_next_strict:
  assumes "chk_next qm1 n h = Some h'" and "2 \<le> n" and "n \<le> qm1"
    and "chk_strict (Suc qm1) n h"
  shows "chk_strict (Suc qm1) n h'"
proof -
  from assms(4) have len: "length h = n" and last: "h ! (n - 1) = 0"
    and dec: "\<forall>j. j + 1 < n \<longrightarrow> h ! (j + 1) < h ! j"
    unfolding chk_strict_def by simp_all
  from assms(1,2,3) len obtain i where i: "i + 2 \<le> n" "h ! i < qm1 - i - 1"
    "length h' = n"
    "\<forall>k < n. h' ! k = (if k < i then h ! i + 1 + (i - k) else if k = i then h ! i + 1 else h ! k)"
    by (rule chk_next_Some)
  have nth: "h' ! k = (if k < i then h ! i + 1 + (i - k) else if k = i then h ! i + 1 else h ! k)"
    if "k < n" for k using i(4) that by blast
  from i(1) have "\<not> n - 1 < i" "n - 1 \<noteq> i" "n - 1 < n" by linarith+
  with nth [of "n - 1"] last have "h' ! (n - 1) = 0" by simp
  moreover have "h' ! (j + 1) < h' ! j" if j: "j + 1 < n" for j
  proof -
    from j have jn: "j < n" by simp
    from dec j have d: "h ! (j + 1) < h ! j" by blast
    consider "j + 1 < i" | "j + 1 = i" | "j = i" | "i < j" by linarith
    then show ?thesis
    proof cases
      case 1
      with nth [OF j] nth [OF jn] show ?thesis by simp
    next
      case 2
      with nth [OF j] nth [OF jn] show ?thesis by simp
    next
      case 3
      with nth [OF j] nth [OF jn] d show ?thesis by simp
    next
      case 4
      with nth [OF j] nth [OF jn] d show ?thesis by simp
    qed
  qed
  moreover have "h' ! 0 \<le> Suc qm1 - 2"
    using nth [of 0] i(1,2) assms(2) by (cases "i = 0") simp_all
  ultimately show ?thesis using i(3) by (simp add: chk_strict_def)
qed

lemma chk_reach_strict:
  assumes "chk_reach qm1 n h" and "2 \<le> n" and "n \<le> qm1"
  shows "chk_strict (Suc qm1) n h"
  using assms(1)
proof (induction rule: chk_reach.induct)
  case chk_reach_begin
  show ?case by (rule chk_begin_strict [OF assms(2,3)])
next
  case (chk_reach_next h h')
  from chk_next_strict [OF chk_reach_next(2) assms(2,3) chk_reach_next(3)] show ?case .
qed















lemmas eval_chk = chk_all.simps chk_next_def chk_scan.simps chk_reset.simps size_sub_def
  chk_begin_def eval_list upt_rec

text \<open>
  Claim C4. Every parity produced by \<open>chk_begin\<close> and successful calls of \<open>chk_next\<close> is
  in canonical form (non-increasing, last exponent 0) and none is produced twice.
  For code lengths \<open>2 \<le> n < q\<close> this holds (lemmas \<open>chk_reach_strict\<close> and
  \<open>chk_all_strict\<close>: the parities are strictly decreasing, end with 0, and the
  enumeration is duplicate-free). For \<open>n = 1\<close>, which \<open>main\<close> accepts whenever \<open>q > 1\<close>,
  the guard \<open>i + 3 > n\<close> of \<open>chk_next\<close> is never reached and the only exponent, which is
  the last one, is incremented: with \<open>q = 4\<close> the parities produced are \<open>[0]\<close>, \<open>[1]\<close> and
  \<open>[2]\<close>.
\<close>

theorem chk_next_codelength_1:
  "(\<exists>c. make_ctx 1 3 [(0, 0), (0, 1), (1, 0), (1, 1)] [0, 1, 2, 3] = Inr c
        \<and> c_n c = 1 \<and> gf_size_minus_1 (c_F c) = 3)
   \<and> chk_begin 1 = [0]
   \<and> chk_next 3 1 [0] = Some [1]
   \<and> chk_next 3 1 [1] = Some [2]
   \<and> chk_next 3 1 [2] = None
   \<and> chk_all 3 1 (chk_begin 1) = Some [[0], [1], [2]]"
proof -
  define C :: "(int \<times> int) list" where "C = [(0, 0), (0, 1), (1, 0), (1, 1)]"
  define pis :: "nat list" where "pis = [0, 1, 2, 3]"
  have len: "length C = 4" by (simp add: C_def)
  have l: "log2_loop 4 0 = 2" by (simp add: log2_loop.simps)
  have ms: "mapping_scan 4 pis 0 = None" by (simp add: pis_def mapping_scan.simps)
  have "\<exists>c. make_ctx 1 3 C pis = Inr c \<and> c_n c = 1 \<and> gf_size_minus_1 (c_F c) = 3"
    by (simp add: make_ctx_def len l gf4_init ms)
  then have "\<exists>c. make_ctx 1 3 [(0, 0), (0, 1), (1, 0), (1, 1)] [0, 1, 2, 3] = Inr c
        \<and> c_n c = 1 \<and> gf_size_minus_1 (c_F c) = 3"
    by (simp only: C_def pis_def)
  moreover have "chk_begin 1 = [0]" by (simp add: eval_chk)
  moreover have "chk_next 3 1 [0] = Some [1]" "chk_next 3 1 [1] = Some [2]"
    "chk_next 3 1 [2] = None"
    by (simp_all add: eval_chk)
  moreover have "chk_all 3 1 (chk_begin 1) = Some [[0], [1], [2]]" by (simp add: eval_chk)
  ultimately show ?thesis by blast
qed




section \<open>Neighbour ranking\<close>

text \<open>
  Both variants lay \<open>Q\<close> and \<open>V\<close> out as one block of \<open>q * q\<close> cells (the sibling variant
  only adds row pointers \<open>Q[i] = Q[0] + i * q\<close>), and sort each row with the same exchange
  sort.  The sort is studied for an arbitrary key.
\<close>

lemma sort_init: "fold (\<lambda>j Vi. Vi[j := j]) [0..<q] (replicate q 0) = [0..<q]"
proof -
  have "k \<le> q \<Longrightarrow> fold (\<lambda>j Vi. Vi[j := j]) [0..<k] (replicate q 0) = [0..<k] @ replicate (q - k) 0"
    for k
  proof (induction k)
    case 0
    show ?case by simp
  next
    case (Suc k)
    then have "fold (\<lambda>j Vi. Vi[j := j]) [0..<Suc k] (replicate q 0)
               = ([0..<k] @ replicate (q - k) 0)[k := k]"
      by simp
    also have "\<dots> = [0..<k] @ (replicate (q - k) 0)[0 := k]"
      by (simp add: list_update_append)
    also have "replicate (q - k) (0::nat) = 0 # replicate (q - Suc k) 0"
      using Suc.prems by (cases "q - k") (simp_all add: Suc_diff_Suc)
    finally show ?case by simp
  qed
  from this [of q] show ?thesis by simp
qed

lemma sort_swap_length: "length (sort_swap q Q i j k Vi) = length Vi"
  by (simp add: sort_swap_def)

lemma sort_swap_set:
  "j < length Vi \<Longrightarrow> k < length Vi \<Longrightarrow> set (sort_swap q Q i j k Vi) = set Vi"
  by (simp add: sort_swap_def set_swap)

text \<open>The pass for position \<open>j\<close>, cut after the cells below \<open>K\<close>.\<close>

lemma sort_pass:
  assumes "j < K" "K \<le> q" "length Vi = q"
    and "\<forall>a<j. \<forall>b<q. a < b \<longrightarrow> Q ! (i * q + Vi ! a) \<le> Q ! (i * q + Vi ! b)"
  shows "length (fold (\<lambda>k Vi. sort_swap q Q i j k Vi) [j + 1..<K] Vi) = q
       \<and> set (fold (\<lambda>k Vi. sort_swap q Q i j k Vi) [j + 1..<K] Vi) = set Vi
       \<and> (\<forall>a<j. \<forall>b<q. a < b \<longrightarrow>
             Q ! (i * q + fold (\<lambda>k Vi. sort_swap q Q i j k Vi) [j + 1..<K] Vi ! a)
             \<le> Q ! (i * q + fold (\<lambda>k Vi. sort_swap q Q i j k Vi) [j + 1..<K] Vi ! b))
       \<and> (\<forall>b<K. j < b \<longrightarrow>
             Q ! (i * q + fold (\<lambda>k Vi. sort_swap q Q i j k Vi) [j + 1..<K] Vi ! j)
             \<le> Q ! (i * q + fold (\<lambda>k Vi. sort_swap q Q i j k Vi) [j + 1..<K] Vi ! b))
       \<and> (\<forall>a<j. fold (\<lambda>k Vi. sort_swap q Q i j k Vi) [j + 1..<K] Vi ! a = Vi ! a)"
  using assms(1,2)
proof (induction K)
  case 0
  then show ?case by simp
next
  case (Suc K)
  show ?case
  proof (cases "K = j")
    case True
    then show ?thesis using assms(3,4) by (simp add: less_Suc_eq)
  next
    case False
    define W where "W = fold (\<lambda>k Vi. sort_swap q Q i j k Vi) [j + 1..<K] Vi"
    from False Suc.prems have jK: "j < K" "K < q" by simp_all
    note IH = Suc.IH [OF jK(1) less_imp_le [OF jK(2)], folded W_def]
    have W: "length W = q" "set W = set Vi"
      "\<forall>a<j. \<forall>b<q. a < b \<longrightarrow> Q ! (i * q + W ! a) \<le> Q ! (i * q + W ! b)"
      "\<forall>b<K. j < b \<longrightarrow> Q ! (i * q + W ! j) \<le> Q ! (i * q + W ! b)"
      "\<forall>a<j. W ! a = Vi ! a"
      using IH by blast+
    have step: "fold (\<lambda>k Vi. sort_swap q Q i j k Vi) [j + 1..<Suc K] Vi = sort_swap q Q i j K W"
      using jK(1) unfolding W_def by simp
    show ?thesis
    proof (cases "Q ! (i * q + W ! K) < Q ! (i * q + W ! j)")
      case no: False
      then have eq: "sort_swap q Q i j K W = W"
        by (simp add: sort_swap_def)
      have "\<forall>b<Suc K. j < b \<longrightarrow> Q ! (i * q + W ! j) \<le> Q ! (i * q + W ! b)"
        using W(4) no by (auto simp add: less_Suc_eq)
      with W show ?thesis unfolding step eq by simp
    next
      case yes: True
      define W' where "W' = (W[j := W ! K])[K := W ! j]"
      from yes have eq: "sort_swap q Q i j K W = W'"
        by (simp add: sort_swap_def W'_def)
      have nth: "W' ! b = (if b = K then W ! j else if b = j then W ! K else W ! b)" if "b < q" for b
        using that W(1) jK by (simp add: W'_def nth_list_update)
      have 1: "length W' = q" by (simp add: W'_def W(1))
      have 2: "set W' = set Vi"
        unfolding W'_def using set_swap [of j W K] W(1,2) jK by simp
      have 3: "\<forall>a<j. \<forall>b<q. a < b \<longrightarrow> Q ! (i * q + W' ! a) \<le> Q ! (i * q + W' ! b)"
      proof (intro allI impI)
        fix a b assume a: "a < j" and b: "b < q" and ab: "a < b"
        have "W' ! a = W ! a" using a jK by (simp add: nth)
        moreover have "Q ! (i * q + W ! a) \<le> Q ! (i * q + W' ! b)"
          using W(3) a b ab jK by (simp add: nth)
        ultimately show "Q ! (i * q + W' ! a) \<le> Q ! (i * q + W' ! b)" by simp
      qed
      have 4: "\<forall>b<Suc K. j < b \<longrightarrow> Q ! (i * q + W' ! j) \<le> Q ! (i * q + W' ! b)"
      proof (intro allI impI)
        fix b assume b: "b < Suc K" and jb: "j < b"
        show "Q ! (i * q + W' ! j) \<le> Q ! (i * q + W' ! b)"
        proof (cases "b = K")
          case True
          then show ?thesis using yes jK by (simp add: nth)
        next
          case False
          with b have "b < K" by simp
          with W(4) jb have "Q ! (i * q + W ! j) \<le> Q ! (i * q + W ! b)" by simp
          with yes show ?thesis using jK jb False \<open>b < K\<close> by (simp add: nth)
        qed
      qed
      have 5: "\<forall>a<j. W' ! a = Vi ! a"
        using W(5) jK by (simp add: nth)
      from 1 2 3 4 5 show ?thesis unfolding step eq by simp
    qed
  qed
qed

lemma sort_outer:
  assumes "J \<le> q"
  shows "length (fold (\<lambda>j Vi. fold (\<lambda>k Vi. sort_swap q Q i j k Vi) [j + 1..<q] Vi) [0..<J] [0..<q]) = q
       \<and> set (fold (\<lambda>j Vi. fold (\<lambda>k Vi. sort_swap q Q i j k Vi) [j + 1..<q] Vi) [0..<J] [0..<q])
           = {0..<q}
       \<and> (\<forall>a<J. \<forall>b<q. a < b \<longrightarrow>
             Q ! (i * q + fold (\<lambda>j Vi. fold (\<lambda>k Vi. sort_swap q Q i j k Vi) [j + 1..<q] Vi)
                            [0..<J] [0..<q] ! a)
             \<le> Q ! (i * q + fold (\<lambda>j Vi. fold (\<lambda>k Vi. sort_swap q Q i j k Vi) [j + 1..<q] Vi)
                              [0..<J] [0..<q] ! b))"
  using assms
proof (induction J)
  case 0
  show ?case by simp
next
  case (Suc J)
  define W where
    "W = fold (\<lambda>j Vi. fold (\<lambda>k Vi. sort_swap q Q i j k Vi) [j + 1..<q] Vi) [0..<J] [0..<q]"
  define W' where "W' = fold (\<lambda>k Vi. sort_swap q Q i J k Vi) [J + 1..<q] W"
  from Suc.prems have Jq: "J < q" by simp
  note IH = Suc.IH [OF less_imp_le [OF Jq], folded W_def]
  have W: "length W = q" "set W = {0..<q}"
    "\<forall>a<J. \<forall>b<q. a < b \<longrightarrow> Q ! (i * q + W ! a) \<le> Q ! (i * q + W ! b)"
    using IH by blast+
  note P = sort_pass [OF Jq le_refl W(1) W(3), folded W'_def]
  have W': "length W' = q" "set W' = set W"
    "\<forall>a<J. \<forall>b<q. a < b \<longrightarrow> Q ! (i * q + W' ! a) \<le> Q ! (i * q + W' ! b)"
    "\<forall>b<q. J < b \<longrightarrow> Q ! (i * q + W' ! J) \<le> Q ! (i * q + W' ! b)"
    using P by blast+
  have step: "fold (\<lambda>j Vi. fold (\<lambda>k Vi. sort_swap q Q i j k Vi) [j + 1..<q] Vi) [0..<Suc J] [0..<q]
              = W'"
    unfolding W'_def W_def by simp
  have "\<forall>a<Suc J. \<forall>b<q. a < b \<longrightarrow> Q ! (i * q + W' ! a) \<le> Q ! (i * q + W' ! b)"
    using W'(3,4) by (auto simp add: less_Suc_eq)
  with W' W(2) show ?case unfolding step by simp
qed

text \<open>The first pass, on the identity: the cell \<open>0\<close> holds the least index of least key.\<close>

lemma sort_pass_first:
  assumes "0 < K" "K \<le> q"
  shows "length (fold (\<lambda>k Vi. sort_swap q Q i 0 k Vi) [0 + 1..<K] [0..<q]) = q
       \<and> fold (\<lambda>k Vi. sort_swap q Q i 0 k Vi) [0 + 1..<K] [0..<q] ! 0 < K
       \<and> (\<forall>v<K. Q ! (i * q + fold (\<lambda>k Vi. sort_swap q Q i 0 k Vi) [0 + 1..<K] [0..<q] ! 0)
                 \<le> Q ! (i * q + v))
       \<and> (\<forall>v<fold (\<lambda>k Vi. sort_swap q Q i 0 k Vi) [0 + 1..<K] [0..<q] ! 0.
             Q ! (i * q + fold (\<lambda>k Vi. sort_swap q Q i 0 k Vi) [0 + 1..<K] [0..<q] ! 0)
             < Q ! (i * q + v))
       \<and> (\<forall>b<q. K \<le> b \<longrightarrow> fold (\<lambda>k Vi. sort_swap q Q i 0 k Vi) [0 + 1..<K] [0..<q] ! b = b)"
  using assms
proof (induction K)
  case 0
  then show ?case by simp
next
  case (Suc K)
  show ?case
  proof (cases "K = 0")
    case True
    then show ?thesis using Suc.prems by simp
  next
    case False
    define W where "W = fold (\<lambda>k Vi. sort_swap q Q i 0 k Vi) [0 + 1..<K] [0..<q]"
    from False Suc.prems have K: "0 < K" "K < q" by simp_all
    note IH = Suc.IH [OF K(1) less_imp_le [OF K(2)], folded W_def]
    have W: "length W = q" "W ! 0 < K" "\<forall>v<K. Q ! (i * q + W ! 0) \<le> Q ! (i * q + v)"
      "\<forall>v<W ! 0. Q ! (i * q + W ! 0) < Q ! (i * q + v)"
      "\<forall>b<q. K \<le> b \<longrightarrow> W ! b = b"
      using IH by blast+
    have WK: "W ! K = K" using W(5) K by simp
    have step: "fold (\<lambda>k Vi. sort_swap q Q i 0 k Vi) [0 + 1..<Suc K] [0..<q] = sort_swap q Q i 0 K W"
      using K(1) unfolding W_def by simp
    show ?thesis
    proof (cases "Q ! (i * q + K) < Q ! (i * q + W ! 0)")
      case no: False
      then have eq: "sort_swap q Q i 0 K W = W"
        by (simp add: sort_swap_def WK)
      have "\<forall>v<Suc K. Q ! (i * q + W ! 0) \<le> Q ! (i * q + v)"
        using W(3) no by (auto simp add: less_Suc_eq)
      moreover have "W ! 0 < Suc K" using W(2) by simp
      moreover have "\<forall>b<q. Suc K \<le> b \<longrightarrow> W ! b = b" using W(5) by simp
      ultimately show ?thesis using W(1,4) unfolding step eq by blast
    next
      case yes: True
      define W' where "W' = (W[0 := W ! K])[K := W ! 0]"
      from yes have eq: "sort_swap q Q i 0 K W = W'"
        by (simp add: sort_swap_def W'_def WK)
      have nth: "W' ! b = (if b = K then W ! 0 else if b = 0 then K else W ! b)" if "b < q" for b
        using that W(1) K by (simp add: W'_def nth_list_update WK)
      have 1: "length W' = q" by (simp add: W'_def W(1))
      have 0: "W' ! 0 = K" using K by (simp add: nth)
      have 3: "\<forall>v<K. Q ! (i * q + K) < Q ! (i * q + v)"
        using W(3) yes by (meson less_le_trans)
      then have 4: "\<forall>v<Suc K. Q ! (i * q + K) \<le> Q ! (i * q + v)"
        by (auto simp add: less_Suc_eq intro: less_imp_le)
      have 5: "\<forall>b<q. Suc K \<le> b \<longrightarrow> W' ! b = b"
        using W(5) K by (simp add: nth)
      from 1 3 4 5 show ?thesis unfolding step eq 0 by simp
    qed
  qed
qed

lemma sort_outer_first:
  assumes "0 < J" "J \<le> q"
  shows "fold (\<lambda>j Vi. fold (\<lambda>k Vi. sort_swap q Q i j k Vi) [j + 1..<q] Vi) [0..<J] [0..<q] ! 0
         = fold (\<lambda>k Vi. sort_swap q Q i 0 k Vi) [0 + 1..<q] [0..<q] ! 0"
  using assms
proof (induction J)
  case 0
  then show ?case by simp
next
  case (Suc J)
  show ?case
  proof (cases "J = 0")
    case True
    then show ?thesis by simp
  next
    case False
    define W where
      "W = fold (\<lambda>j Vi. fold (\<lambda>k Vi. sort_swap q Q i j k Vi) [j + 1..<q] Vi) [0..<J] [0..<q]"
    from False Suc.prems have J: "0 < J" "J < q" by simp_all
    note O = sort_outer [OF less_imp_le [OF J(2)], of Q i, folded W_def]
    have W: "length W = q"
      "\<forall>a<J. \<forall>b<q. a < b \<longrightarrow> Q ! (i * q + W ! a) \<le> Q ! (i * q + W ! b)"
      using O by blast+
    from sort_pass [OF J(2) le_refl W(1) W(2)] J(1)
    have "fold (\<lambda>k Vi. sort_swap q Q i J k Vi) [J + 1..<q] W ! 0 = W ! 0"
      by blast
    moreover have "W ! 0 = fold (\<lambda>k Vi. sort_swap q Q i 0 k Vi) [0 + 1..<q] [0..<q] ! 0"
      using Suc.IH [OF J(1) less_imp_le [OF J(2)]] unfolding W_def .
    ultimately show ?thesis unfolding W_def by simp
  qed
qed

lemma sort_row_spec:
  "length (sort_row q Q i) = q"
  "set (sort_row q Q i) = {0..<q}"
  "a \<le> b \<Longrightarrow> b < q \<Longrightarrow> Q ! (i * q + sort_row q Q i ! a) \<le> Q ! (i * q + sort_row q Q i ! b)"
  "v < q \<Longrightarrow> Q ! (i * q + sort_row q Q i ! 0) \<le> Q ! (i * q + v)"
  "0 < q \<Longrightarrow> v < sort_row q Q i ! 0 \<Longrightarrow> Q ! (i * q + sort_row q Q i ! 0) < Q ! (i * q + v)"
proof -
  have S: "sort_row q Q i
           = fold (\<lambda>j Vi. fold (\<lambda>k Vi. sort_swap q Q i j k Vi) [j + 1..<q] Vi) [0..<q] [0..<q]"
    unfolding sort_row_def sort_init ..
  note O = sort_outer [OF le_refl, of q Q i, folded S]
  show "length (sort_row q Q i) = q" "set (sort_row q Q i) = {0..<q}"
    using O by blast+
  have srt: "\<forall>a<q. \<forall>b<q. a < b \<longrightarrow> Q ! (i * q + sort_row q Q i ! a) \<le> Q ! (i * q + sort_row q Q i ! b)"
    using O by blast
  show "Q ! (i * q + sort_row q Q i ! a) \<le> Q ! (i * q + sort_row q Q i ! b)"
    if "a \<le> b" "b < q"
    using srt that by (cases "a = b") simp_all
  have first: "sort_row q Q i ! 0 = fold (\<lambda>k Vi. sort_swap q Q i 0 k Vi) [0 + 1..<q] [0..<q] ! 0"
    if "0 < q"
    using sort_outer_first [OF that le_refl, of Q i] unfolding S .
  show "Q ! (i * q + sort_row q Q i ! 0) \<le> Q ! (i * q + v)" if "v < q"
  proof -
    from that have q: "0 < q" by simp
    from sort_pass_first [OF q le_refl, of Q i] that show ?thesis
      unfolding first [OF q] by blast
  qed
  show "Q ! (i * q + sort_row q Q i ! 0) < Q ! (i * q + v)" if "0 < q" "v < sort_row q Q i ! 0"
    using sort_pass_first [OF that(1) le_refl, of Q i] that(2)
    unfolding first [OF that(1)] by blast
qed

lemma concat_rows_nth:
  "\<forall>xs\<in>set xss. length xs = q \<Longrightarrow> i < length xss \<Longrightarrow> d < q
   \<Longrightarrow> concat xss ! (i * q + d) = xss ! i ! d"
proof (induction xss arbitrary: i)
  case Nil
  then show ?case by simp
next
  case (Cons xs xss)
  show ?case
  proof (cases i)
    case 0
    with Cons.prems show ?thesis by (simp add: nth_append)
  next
    case (Suc i')
    with Cons.prems have "concat xss ! (i' * q + d) = xss ! i' ! d"
      by (intro Cons.IH) simp_all
    moreover have "concat (xs # xss) ! (i * q + d) = concat xss ! (i' * q + d)"
      using Cons.prems Suc by (simp add: nth_append)
    ultimately show ?thesis using Suc by simp
  qed
qed

lemma build_V_nth: "i < q \<Longrightarrow> d < q \<Longrightarrow> build_V q Q ! (i * q + d) = sort_row q Q i ! d"
  unfolding build_V_def
  by (subst concat_rows_nth [where q = q]) (simp_all add: sort_row_spec(1))

lemma build_Q_nth: "i < q \<Longrightarrow> j < q \<Longrightarrow> build_Q q C pi ! (i * q + j) = quadrance C pi i j"
  unfolding build_Q_def
  by (subst concat_rows_nth [where q = q]) simp_all

lemma quadrance_self: "quadrance C pi i i = 0"
  by (simp add: quadrance_def)

text \<open>
  Claim C8, as stated, fails in its last part: \<open>main\<close> accepts a constellation with two
  points at the same place (here the points 0 and 1), and then the row of element 1
  starts with element 0, which is at quadrance 0 too and comes first by index.
\<close>

theorem build_V_first_counterexample:
  "\<exists>c. make_ctx 2 3 [(0, 0), (0, 0), (1, 0), (1, 1)] [0, 1, 2, 3] = Inr c
       \<and> c_q c = 4 \<and> c_V c ! (1 * c_q c + 0) = 0 \<and> c_Q c ! (1 * c_q c + 0) = 0"
proof -
  define C :: "(int \<times> int) list" where "C = [(0, 0), (0, 0), (1, 0), (1, 1)]"
  define pis :: "nat list" where "pis = [0, 1, 2, 3]"
  have len: "length C = 4" by (simp add: C_def)
  have l: "log2_loop 4 0 = 2" by (simp add: log2_loop.simps)
  have ms: "mapping_scan 4 pis 0 = None" by (simp add: pis_def mapping_scan.simps)
  have tk: "take 4 pis = pis" by (simp add: pis_def)
  have Q: "build_Q 4 C pis = [0, 0, 1, 2, 0, 0, 1, 2, 1, 1, 0, 1, 2, 2, 1, 0]"
    by (simp add: build_Q_def quadrance_def C_def pis_def upt_rec)
  have V: "sort_row 4 (build_Q 4 C pis) 1 ! 0 = 0"
    by (simp add: Q sort_row_def sort_swap_def eval_list upt_rec)
  have "build_V 4 (build_Q 4 C pis) ! (1 * 4 + 0) = sort_row 4 (build_Q 4 C pis) 1 ! 0"
    by (rule build_V_nth) simp_all
  with V have "build_V 4 (build_Q 4 C pis) ! (1 * 4 + 0) = 0"
    by (simp only:)
  moreover have "build_Q 4 C pis ! (1 * 4 + 0) = 0"
    by (simp add: Q)
  ultimately have "\<exists>c. make_ctx 2 3 C pis = Inr c
       \<and> c_q c = 4 \<and> c_V c ! (1 * c_q c + 0) = 0 \<and> c_Q c ! (1 * c_q c + 0) = 0"
    by (simp add: make_ctx_def len l gf4_init ms tk)
  then show ?thesis by (simp only: C_def pis_def)
qed

text \<open>
  Claim C8, amended.  After the ranking step, for every element \<open>i\<close> the row \<open>V[i]\<close> is a
  permutation of \<open>[0, q)\<close> (it maps the ranks \<open>[0, q)\<close> onto \<open>[0, q)\<close>), sorted by ascending
  quadrance from \<open>i\<close>; its first entry is the least index among the elements of least
  quadrance; for the quadrances \<open>Q\<close> that \<open>main\<close> builds, it is \<open>i\<close> itself when no element
  \<open>j < i\<close> is at quadrance 0 from \<open>i\<close>.
\<close>

theorem build_V_rows:
  assumes "i < q"
  shows "(\<lambda>d. build_V q Q ! (i * q + d)) ` {0..<q} = {0..<q}
       \<and> (\<forall>d e. d \<le> e \<and> e < q \<longrightarrow>
             Q ! (i * q + build_V q Q ! (i * q + d)) \<le> Q ! (i * q + build_V q Q ! (i * q + e)))
       \<and> (\<forall>v<q. Q ! (i * q + build_V q Q ! (i * q + 0)) \<le> Q ! (i * q + v))
       \<and> (\<forall>v<build_V q Q ! (i * q + 0). Q ! (i * q + build_V q Q ! (i * q + 0)) < Q ! (i * q + v))
       \<and> (Q = build_Q q C pi \<and> (\<forall>j<i. Q ! (i * q + j) \<noteq> 0) \<longrightarrow> build_V q Q ! (i * q + 0) = i)"
proof -
  from assms have q: "0 < q" by simp
  have nth: "build_V q Q ! (i * q + d) = sort_row q Q i ! d" if "d < q" for d
    using build_V_nth [OF assms that] .
  have nth0: "build_V q Q ! (i * q) = sort_row q Q i ! 0"
    using nth [OF q] by simp
  have "(\<lambda>d. build_V q Q ! (i * q + d)) ` {0..<q} = (\<lambda>d. sort_row q Q i ! d) ` {0..<q}"
    by (rule image_cong) (simp_all add: nth)
  also have "\<dots> = set (sort_row q Q i)"
    using sort_row_spec(1) [of q Q i] by (auto simp add: set_conv_nth)
  finally have 1: "(\<lambda>d. build_V q Q ! (i * q + d)) ` {0..<q} = {0..<q}"
    by (simp add: sort_row_spec(2))
  have 2: "\<forall>d e. d \<le> e \<and> e < q \<longrightarrow>
             Q ! (i * q + build_V q Q ! (i * q + d)) \<le> Q ! (i * q + build_V q Q ! (i * q + e))"
    using sort_row_spec(3) [of _ _ q Q i] by (simp add: nth)
  have 3: "\<forall>v<q. Q ! (i * q + build_V q Q ! (i * q + 0)) \<le> Q ! (i * q + v)"
    using sort_row_spec(4) [of _ q Q i] q by (simp add: nth0)
  have 4: "\<forall>v<build_V q Q ! (i * q + 0). Q ! (i * q + build_V q Q ! (i * q + 0)) < Q ! (i * q + v)"
    using sort_row_spec(5) [OF q, of _ Q i] q by (simp add: nth0)
  have 5: "build_V q Q ! (i * q + 0) = i" if Q: "Q = build_Q q C pi" and nz: "\<forall>j<i. Q ! (i * q + j) \<noteq> 0"
  proof -
    define v where "v = build_V q Q ! (i * q + 0)"
    have Qi: "Q ! (i * q + i) = 0"
      unfolding Q using assms by (simp add: build_Q_nth quadrance_self)
    with 3 assms have v0: "Q ! (i * q + v) = 0" unfolding v_def by (metis le_zero_eq)
    have "\<not> v < i" using nz v0 by blast
    moreover have "\<not> i < v" using 4 v0 Qi unfolding v_def [symmetric] by (metis not_less_zero)
    ultimately show ?thesis unfolding v_def by simp
  qed
  from 1 2 3 4 5 show ?thesis by blast
qed

theorem build_V_rows_witness:
  "build_V 4 (build_Q 4 [(0, 0), (0, 1), (1, 0), (1, 1)] [0, 1, 2, 3]) ! (1 * 4 + 0) = 1
   \<and> (\<lambda>d. build_V 4 (build_Q 4 [(0, 0), (0, 1), (1, 0), (1, 1)] [0, 1, 2, 3]) ! (1 * 4 + d))
       ` {0..<4} = {0..<4}"
proof -
  define C :: "(int \<times> int) list" where "C = [(0, 0), (0, 1), (1, 0), (1, 1)]"
  define pis :: "nat list" where "pis = [0, 1, 2, 3]"
  have Q: "build_Q 4 C pis ! (1 * 4 + 0) = 1"
    by (simp add: build_Q_def quadrance_def C_def pis_def upt_rec)
  have "(1::nat) < 4" by simp
  from build_V_rows [OF this, of "build_Q 4 C pis" C pis] Q
  have "build_V 4 (build_Q 4 C pis) ! (1 * 4 + 0) = 1
   \<and> (\<lambda>d. build_V 4 (build_Q 4 C pis) ! (1 * 4 + d)) ` {0..<4} = {0..<4}"
    by simp
  then show ?thesis by (simp only: C_def pis_def)
qed

end
